theory Spec2Isabelle
  imports Main "HOL-Library.Word" "HOL-Library.Signed_Division"
begin

unbundle bit_operations_syntax

section \<open>Data model\<close>

text \<open>
  The program is a single C file, \<^verbatim>\<open>gol_color.c\<close>. Its buffers are flat arrays:
  the two cell grids are arrays of \<^verbatim>\<open>char\<close> (one byte per cell, row-major, index
  \<^verbatim>\<open>y * width + x\<close>), the draw buffer is an array of \<^verbatim>\<open>uint16_t\<close> holding three
  half-words per display unit. Arrays are lists here; an array write is a list update.
  The functions index only below the sizes their callers allocate, and every theorem
  below states those sizes as hypotheses (an access outside the array is undefined in C
  and is not given a meaning of its own here).

  \<^verbatim>\<open>uint\<close> is \<^verbatim>\<open>uint_fast32_t\<close>, which is 64 bits wide on the LP64 platforms the
  POSIX branch of the file is written for, as is \<^verbatim>\<open>unsigned long\<close>.
  Dimensions reach the core functions only after validation (at most 2000 each), so the
  index arithmetic of the core, done in \<^verbatim>\<open>signed long\<close>, never overflows; it is written
  on \<open>int\<close> and \<open>nat\<close>. Cells are 8-bit words: the sum of the nine cells of a window
  is accumulated in a \<^verbatim>\<open>char\<close>, so it wraps at 8 bits.
\<close>

type_synonym cell = "8 word"
type_synonym token = "16 word"
type_synonym u64 = "64 word"

section \<open>Simulation stepper\<close>

text \<open>
  \<^verbatim>\<open>rotl5\<close> and \<^verbatim>\<open>fxhash\<close> (lines 29-34), used by the initial randomisation.
\<close>

definition rotl5 :: "u64 \<Rightarrow> u64" where
  "rotl5 v = push_bit 5 v OR drop_bit (8 * 8 - 5) v"

definition fxhash :: "u64 \<Rightarrow> u64 \<Rightarrow> u64" where
  "fxhash h w = (rotl5 h XOR w) * 0x517cc1b727220a95"

text \<open>
  \<^verbatim>\<open>do_gen_naive\<close> (lines 41-53). The two inner loops run \<^verbatim>\<open>dy\<close> and \<^verbatim>\<open>dx\<close> over
  \<open>-1, 0, 1\<close> and add the cell at
  \<^verbatim>\<open>(dy + y + h) % h * w + (dx + x + w) % w\<close> to \<^verbatim>\<open>live_count\<close>. C's \<^verbatim>\<open>%\<close> truncates
  towards zero: it is \<open>smod\<close>.
\<close>

definition live_count_at :: "cell list \<Rightarrow> int \<Rightarrow> int \<Rightarrow> int \<Rightarrow> int \<Rightarrow> cell" where
  "live_count_at src_buffer h w y x =
     fold (\<lambda>dy. fold (\<lambda>dx live_count.
             live_count + src_buffer ! nat ((dy + y + h) smod h * w + (dx + x + w) smod w))
           [-1, 0, 1])
       [-1, 0, 1] 0"

text \<open>
  The value stored at line 50:
  \<^verbatim>\<open>((live_count == 3) | ((live_count == 4) & src_buffer[y * w + x])) != 0\<close>.
  The comparisons give the \<^verbatim>\<open>int\<close> 0 or 1, the cell is promoted to \<^verbatim>\<open>int\<close>, and
  \<^verbatim>\<open>|\<close> and \<^verbatim>\<open>&\<close> are bitwise.
\<close>

definition next_state :: "cell \<Rightarrow> cell \<Rightarrow> cell" where
  "next_state live_count self =
     (if (of_bool (live_count = 3) OR (of_bool (live_count = 4) AND sint self)) \<noteq> (0 :: int)
      then 1 else 0)"

definition do_gen_naive :: "cell list \<Rightarrow> cell list \<Rightarrow> nat \<Rightarrow> nat \<Rightarrow> cell list" where
  "do_gen_naive dst_buffer src_buffer height width =
     (let h = int height; w = int width in
      fold (\<lambda>y. fold (\<lambda>x dst.
              dst[nat (y * w + x) :=
                    next_state (live_count_at src_buffer h w y x) (src_buffer ! nat (y * w + x))])
            (map int [0..<width]))
        (map int [0..<height]) dst_buffer)"

subsection \<open>The rule in the specification's words\<close>

text \<open>
  The self-inclusive count of the specification: the sum of the source grid over the
  nine cells \<open>((y + dy + height) mod height, (x + dx + width) mod width)\<close>.
\<close>

definition wrap :: "nat \<Rightarrow> nat \<Rightarrow> int \<Rightarrow> nat" where
  "wrap n k d = nat ((int k + d + int n) mod int n)"

definition cell_at :: "cell list \<Rightarrow> nat \<Rightarrow> nat \<Rightarrow> nat \<Rightarrow> nat" where
  "cell_at src width y x = unat (src ! (y * width + x))"

definition window_count :: "cell list \<Rightarrow> nat \<Rightarrow> nat \<Rightarrow> nat \<Rightarrow> nat \<Rightarrow> nat" where
  "window_count src height width x y =
     (\<Sum>dy\<leftarrow>[-1, 0, 1]. \<Sum>dx\<leftarrow>[-1, 0, 1].
        cell_at src width (wrap height y dy) (wrap width x dx))"

text \<open>
  The conventional rule: the live neighbours of a cell are counted over the eight
  offsets other than \<open>(0, 0)\<close>; a dead cell is born on exactly three, a live cell
  survives on two or three.
\<close>

definition neighbour_offsets :: "(int \<times> int) list" where
  "neighbour_offsets =
     [(-1, -1), (-1, 0), (-1, 1), (0, -1), (0, 1), (1, -1), (1, 0), (1, 1)]"

definition neighbour_count :: "cell list \<Rightarrow> nat \<Rightarrow> nat \<Rightarrow> nat \<Rightarrow> nat \<Rightarrow> nat" where
  "neighbour_count src height width x y =
     (\<Sum>(dy, dx)\<leftarrow>neighbour_offsets. cell_at src width (wrap height y dy) (wrap width x dx))"

definition conway_alive :: "bool \<Rightarrow> nat \<Rightarrow> bool" where
  "conway_alive alive n = (if alive then n = 2 \<or> n = 3 else n = 3)"

definition conway_step :: "cell list \<Rightarrow> nat \<Rightarrow> nat \<Rightarrow> cell list" where
  "conway_step src height width =
     map (\<lambda>i. of_bool (conway_alive (src ! i = 1)
                 (neighbour_count src height width (i mod width) (i div width))))
       [0..<height * width]"

definition binary :: "cell list \<Rightarrow> bool" where
  "binary cells = list_all (\<lambda>c. c = 0 \<or> c = 1) cells"

text \<open>
  The grid that is dead everywhere but for a 2x2 block whose upper left cell is in row
  \<open>r\<close> and column \<open>c\<close>.
\<close>

definition block_grid :: "nat \<Rightarrow> nat \<Rightarrow> nat \<Rightarrow> nat \<Rightarrow> cell list" where
  "block_grid height width r c =
     map (\<lambda>i. of_bool ((i div width = r \<or> i div width = r + 1) \<and>
                        (i mod width = c \<or> i mod width = c + 1)))
       [0..<height * width]"

section \<open>Frame encoder\<close>

text \<open>
  The two token tables (lines 60-61). A token is the \<^verbatim>\<open>uint16_t\<close> whose two bytes
  in memory, low byte first (the file assumes a little-endian machine), are the two
  ASCII digits of an ANSI colour code. The source documents the index as
  \<^verbatim>\<open>(LSB,MSB) => old_state->new_state\<close>.
\<close>

definition color_tokens_4bit :: "token list" where
  "color_tokens_4bit = [0x3034, 0x3134, 0x3234, 0x3734]"

definition bw_tokens_4bit :: "token list" where
  "bw_tokens_4bit = [0x3034, 0x3734, 0x3034, 0x3734]"

text \<open>
  \<^verbatim>\<open>fill_draw_buffer_4bit_color\<close> (lines 68-76) walks three pointers: \<^verbatim>\<open>draw_buffer\<close>
  into the draw buffer, \<^verbatim>\<open>abp\<close> into the active grid and \<^verbatim>\<open>pbp\<close> into the previous
  grid. The cursor holds the draw buffer's contents and the three offsets. The global
  \<^verbatim>\<open>active_tokens_4bit\<close> is a parameter. The loop counters \<^verbatim>\<open>x\<close> and \<^verbatim>\<open>y\<close> only
  count: the inner body runs \<^verbatim>\<open>width\<close> times, the outer \<^verbatim>\<open>height\<close> times.
\<close>

record cursor =
  dbuf :: "token list"
  dptr :: nat
  abp :: nat
  pbp :: nat

text \<open>The index \<^verbatim>\<open>((*abp) << 1) | *pbp\<close>, both cells promoted to \<^verbatim>\<open>int\<close>.\<close>

definition token_index :: "cell \<Rightarrow> cell \<Rightarrow> nat" where
  "token_index a p = nat (push_bit 1 (sint a) OR sint p)"

definition fill_cell :: "token list \<Rightarrow> cell list \<Rightarrow> cell list \<Rightarrow> cursor \<Rightarrow> cursor" where
  "fill_cell active_tokens active_buffer prev_buffer s =
     s\<lparr>dbuf := (dbuf s)[dptr s :=
                  active_tokens ! token_index (active_buffer ! abp s) (prev_buffer ! pbp s)],
       abp := abp s + 1, pbp := pbp s + 1, dptr := dptr s + 3\<rparr>"

definition fill_row :: "token list \<Rightarrow> cell list \<Rightarrow> cell list \<Rightarrow> nat \<Rightarrow> cursor \<Rightarrow> cursor" where
  "fill_row active_tokens active_buffer prev_buffer width s =
     (let s' = (fill_cell active_tokens active_buffer prev_buffer ^^ width) s
      in s'\<lparr>dptr := dptr s' + 3\<rparr>)"

definition fill_draw_buffer_4bit_color ::
  "token list \<Rightarrow> token list \<Rightarrow> cell list \<Rightarrow> cell list \<Rightarrow> nat \<Rightarrow> nat \<Rightarrow> token list" where
  "fill_draw_buffer_4bit_color active_tokens draw_buffer active_buffer prev_buffer height width =
     dbuf ((fill_row active_tokens active_buffer prev_buffer width ^^ height)
             \<lparr>dbuf = draw_buffer, dptr = 1, abp = 0, pbp = 0\<rparr>)"

text \<open>
  Reading a frame. The colour code of cell \<open>(x, y)\<close> is the half-word at \<open>slot\<close>;
  \<open>token_code\<close> gives its two bytes as text, in memory order; \<open>draw_bytes\<close> is the
  byte image of the draw buffer that \<^verbatim>\<open>fwrite\<close> sends to the terminal.
\<close>

definition slot :: "nat \<Rightarrow> nat \<Rightarrow> nat \<Rightarrow> nat" where
  "slot width y x = 3 * (y * (width + 1) + x) + 1"

definition token_code :: "token \<Rightarrow> string" where
  "token_code t = [char_of (unat t), char_of (unat (drop_bit 8 t))]"

definition cell_tokens :: "token list \<Rightarrow> nat \<Rightarrow> nat \<Rightarrow> token list" where
  "cell_tokens frame height width =
     map (\<lambda>i. frame ! slot width (i div width) (i mod width)) [0..<height * width]"

definition le_bytes :: "token \<Rightarrow> 8 word list" where
  "le_bytes t = [ucast t, ucast (drop_bit 8 t)]"

definition draw_bytes :: "token list \<Rightarrow> 8 word list" where
  "draw_bytes frame = concat (map le_bytes frame)"

text \<open>
  Byte \<open>p\<close> of the draw buffer lies in the colour code of a cell unit: the unit is not
  the last of its row, and the byte is the third or fourth of the unit's six.
\<close>

definition code_byte :: "nat \<Rightarrow> nat \<Rightarrow> bool" where
  "code_byte width p = ((p div 6) mod (width + 1) < width \<and> (p mod 6 = 2 \<or> p mod 6 = 3))"

text \<open>
  For two cells that are 0 or 1, the value of \<^verbatim>\<open>(hi << 1) | lo\<close>. The specification
  indexes the table with \<open>shift_or previous current\<close>.
\<close>

definition shift_or :: "cell \<Rightarrow> cell \<Rightarrow> nat" where
  "shift_or hi lo = 2 * unat hi + unat lo"

text \<open>The specification's table of colour codes per transition, column by column.\<close>

definition spec_colored_code :: "cell \<Rightarrow> cell \<Rightarrow> string" where
  "spec_colored_code previous current =
     (if previous = 0 then (if current = 0 then ''40'' else ''42'')
      else (if current = 0 then ''41'' else ''47''))"

definition spec_monochrome_code :: "cell \<Rightarrow> cell \<Rightarrow> string" where
  "spec_monochrome_code previous current = (if current = 0 then ''40'' else ''47'')"

section \<open>The driver\<close>

subsection \<open>Library functions\<close>

text \<open>
  \<^verbatim>\<open>strtoul\<close> with base 10, after ISO C: leading white space is skipped, one sign is
  accepted, then the longest run of decimal digits is converted. With no digit there is
  no conversion: the result is 0 and the end pointer is the start of the string. A value
  that does not fit \<^verbatim>\<open>unsigned long\<close> gives \<^verbatim>\<open>ULONG_MAX\<close> and sets \<^verbatim>\<open>errno\<close> to
  \<^verbatim>\<open>ERANGE\<close>; a minus sign negates the value in the unsigned type. The result is the
  value, the offset of the end pointer, and whether \<^verbatim>\<open>ERANGE\<close> was set. An argument
  string holds no NUL, so \<^verbatim>\<open>*end != '\0'\<close> says that the end offset is short of the
  length.
\<close>

definition isspace :: "char \<Rightarrow> bool" where
  "isspace c = (c = CHR 0x20 \<or> c = CHR 0x09 \<or> c = CHR 0x0A \<or> c = CHR 0x0B \<or>
                c = CHR 0x0C \<or> c = CHR 0x0D)"

definition isdigit :: "char \<Rightarrow> bool" where
  "isdigit c = (48 \<le> (of_char c :: nat) \<and> (of_char c :: nat) \<le> 57)"

definition decimal :: "string \<Rightarrow> nat" where
  "decimal ds = fold (\<lambda>c n. 10 * n + (of_char c - 48)) ds 0"

definition strtoul :: "string \<Rightarrow> u64 \<times> nat \<times> bool" where
  "strtoul nptr =
     (let s1 = dropWhile isspace nptr;
          neg = (take 1 s1 = ''-'');
          s2 = (if take 1 s1 = ''-'' \<or> take 1 s1 = ''+'' then drop 1 s1 else s1);
          ds = takeWhile isdigit s2;
          n = decimal ds;
          endp = length nptr - length s2 + length ds
      in if ds = [] then (0, 0, False)
         else if 2 ^ 64 \<le> n then (- 1, endp, True)
         else (if neg then - of_nat n else of_nat n, endp, False))"

text \<open>
  \<^verbatim>\<open>strncasecmp(s1, s2, n) == 0\<close>: the first \<open>n\<close> characters of the two strings,
  terminators included, agree up to case.
\<close>

definition tolower :: "char \<Rightarrow> char" where
  "tolower c = (if 65 \<le> (of_char c :: nat) \<and> (of_char c :: nat) \<le> 90
                then char_of (of_char c + 32 :: nat) else c)"

definition strncasecmp_eq :: "string \<Rightarrow> string \<Rightarrow> nat \<Rightarrow> bool" where
  "strncasecmp_eq s1 s2 n =
     (map tolower (take n (s1 @ [CHR 0x00])) = map tolower (take n (s2 @ [CHR 0x00])))"

subsection \<open>Events and environment\<close>

text \<open>
  What the program does to the outside is a list of events, in order: what it prints,
  the buffers it asks \<^verbatim>\<open>malloc\<close> for (in bytes), the frames it writes (the draw
  buffer and the generation number printed under it), and its pacing sleeps.
  The environment decides what the program cannot: whether \<^verbatim>\<open>signal\<close> and \<^verbatim>\<open>malloc\<close>
  succeed, the value \<^verbatim>\<open>rand()\<close> returns, the contents of fresh memory, and whether the
  interrupt flag is set when the loop polls it in a given iteration.
\<close>

datatype event =
    Stdout_usage
  | Stderr_signal
  | Stderr_bad_input nat string u64 u64
  | Stderr_malloc
  | Malloc nat
  | Stdout_frame "token list" nat
  | Stdout_reset
  | Sleep nat nat

fun is_stderr :: "event \<Rightarrow> bool" where
  "is_stderr Stderr_signal = True"
| "is_stderr (Stderr_bad_input i name lo hi) = True"
| "is_stderr Stderr_malloc = True"
| "is_stderr e = False"

fun frames_of :: "event list \<Rightarrow> token list list" where
  "frames_of [] = []"
| "frames_of (Stdout_frame d g # es) = d # frames_of es"
| "frames_of (e # es) = frames_of es"

record env =
  signal_ok :: bool
  malloc_ok :: bool
  rand_value :: u64
  fresh_cells :: "nat \<Rightarrow> cell"
  fresh_tokens :: "nat \<Rightarrow> token"
  interrupted :: "nat \<Rightarrow> bool"

subsection \<open>Argument validation (lines 103-124)\<close>

definition field_names :: "string list" where
  "field_names = [''height'', ''width'', ''max_FPS'']"

definition min_vals :: "u64 list" where
  "min_vals = [1, 1, 0]"

definition max_vals :: "u64 list" where
  "max_vals = [2000, 2000, 4800]"

text \<open>
  One round of the loop at lines 115-124. \<^verbatim>\<open>errno\<close> is 0 when the loop starts and
  only \<^verbatim>\<open>strtoul\<close> sets it, and the round that sets it returns, so the test
  \<^verbatim>\<open>errno == ERANGE\<close> is the flag of the round's own call.
\<close>

definition parse_arg :: "string list \<Rightarrow> nat \<Rightarrow> event + u64" where
  "parse_arg argv i =
     (case strtoul (argv ! (i + 1)) of
        (v, endp, erange) \<Rightarrow>
          if endp = 0 \<or> endp < length (argv ! (i + 1)) \<or> erange \<or>
             v < min_vals ! i \<or> max_vals ! i < v
          then Inl (Stderr_bad_input (i + 1) (field_names ! i) (min_vals ! i) (max_vals ! i))
          else Inr v)"

definition parse_vals :: "string list \<Rightarrow> event + u64 \<times> u64 \<times> u64" where
  "parse_vals argv =
     (case parse_arg argv 0 of
        Inl e \<Rightarrow> Inl e
      | Inr vh \<Rightarrow>
          (case parse_arg argv 1 of
             Inl e \<Rightarrow> Inl e
           | Inr vw \<Rightarrow>
               (case parse_arg argv 2 of
                  Inl e \<Rightarrow> Inl e
                | Inr vf \<Rightarrow> Inr (vh, vw, vf))))"

text \<open>The help gate of line 103 and the monochrome flag of line 107.\<close>

definition wants_usage :: "string list \<Rightarrow> bool" where
  "wants_usage argv =
     (length argv < 4 \<or>
      (1 < length argv \<and>
       (strncasecmp_eq (argv ! 1) ''-h'' 2 \<or> strncasecmp_eq (argv ! 1) ''--help'' 6)))"

definition bw_flag :: "string list \<Rightarrow> bool" where
  "bw_flag argv =
     (5 \<le> length argv \<and>
      (strncasecmp_eq ''-bw'' (argv ! 1) 4 \<or> strncasecmp_eq ''--bw'' (argv ! 1) 5))"

subsection \<open>Set-up (lines 126-169)\<close>

text \<open>
  The randomisation writes one 64-bit word per round, through a \<^verbatim>\<open>uint64_t\<close> pointer:
  eight cells at once, low byte first.
\<close>

definition store_u64 :: "cell list \<Rightarrow> nat \<Rightarrow> u64 \<Rightarrow> cell list" where
  "store_u64 mem p v =
     fold (\<lambda>k m. m[p + k := ucast (drop_bit (8 * k) v)]) [0, 1, 2, 3, 4, 5, 6, 7] mem"

definition randomize_word :: "nat \<Rightarrow> u64 \<times> cell list \<Rightarrow> u64 \<times> cell list" where
  "randomize_word i =
     (\<lambda>(h, mem). let h' = fxhash h (of_nat i)
                  in (h', store_u64 mem (8 * i) (h' AND 0x0101010101010101)))"

definition randomize :: "u64 \<Rightarrow> nat \<Rightarrow> cell list \<Rightarrow> cell list" where
  "randomize seed num_words mem = snd (fold randomize_word [0..<num_words] (seed, mem))"

text \<open>The escape codes written once into the draw buffer (lines 157-169).\<close>

definition scaffold_cell :: "token list \<times> nat \<Rightarrow> token list \<times> nat" where
  "scaffold_cell =
     (\<lambda>(mem, dbp). (mem[dbp := 0x5B1B, dbp + 1 := 0x3030, dbp + 2 := 0x206D], dbp + 3))"

definition scaffold_row :: "nat \<Rightarrow> token list \<times> nat \<Rightarrow> token list \<times> nat" where
  "scaffold_row width s =
     (case (scaffold_cell ^^ width) s of
        (mem, dbp) \<Rightarrow> (mem[dbp := 0x5B1B, dbp + 1 := 0x3030, dbp + 2 := 0x0A6D], dbp + 3))"

definition init_draw_buffer :: "token list \<Rightarrow> nat \<Rightarrow> nat \<Rightarrow> token list" where
  "init_draw_buffer mem height width = fst ((scaffold_row width ^^ height) (mem, 0))"

subsection \<open>The generation loop (lines 171-196)\<close>

record loop_state =
  front_buffer :: "cell list"
  back_buffer :: "cell list"
  draw :: "token list"
  gen :: nat
  out :: "event list"

text \<open>
  One round that is not interrupted: encode the frame, write it, swap the two grids
  and step from the old front grid into the new one, then sleep if a delay is set.
\<close>

definition loop_body ::
  "token list \<Rightarrow> nat \<Rightarrow> nat \<Rightarrow> nat \<Rightarrow> nat \<Rightarrow> loop_state \<Rightarrow> loop_state" where
  "loop_body active_tokens height width sleep_seconds sleep_ns st =
     (let d = fill_draw_buffer_4bit_color active_tokens (draw st)
                (front_buffer st) (back_buffer st) height width;
          front = back_buffer st;
          back = front_buffer st
      in st\<lparr>draw := d,
            front_buffer := do_gen_naive front back height width,
            back_buffer := back,
            out := out st @ [Stdout_frame d (gen st)] @
                   (if sleep_seconds \<noteq> 0 \<or> sleep_ns \<noteq> 0
                    then [Sleep sleep_seconds sleep_ns] else [])\<rparr>)"

text \<open>
  \<^verbatim>\<open>while (gen++ < 50000)\<close>: the test reads \<^verbatim>\<open>gen\<close> and the increment follows,
  also when the test fails. An interrupt seen at the top of a round prints the reset
  code and leaves the loop.
\<close>

function main_loop ::
  "token list \<Rightarrow> (nat \<Rightarrow> bool) \<Rightarrow> nat \<Rightarrow> nat \<Rightarrow> nat \<Rightarrow> nat \<Rightarrow> loop_state \<Rightarrow> loop_state" where
  "main_loop active_tokens intr height width sleep_seconds sleep_ns st =
     (if gen st < 50000 then
        (let st1 = st\<lparr>gen := gen st + 1\<rparr> in
         if intr (gen st1) then st1\<lparr>out := out st1 @ [Stdout_reset]\<rparr>
         else main_loop active_tokens intr height width sleep_seconds sleep_ns
                (loop_body active_tokens height width sleep_seconds sleep_ns st1))
      else st\<lparr>gen := gen st + 1\<rparr>)"
  by pat_completeness auto
termination
  by (relation "measure (\<lambda>(t, i, h, w, s, n, st). 50000 - gen st)")
    (auto simp: loop_body_def Let_def)

declare main_loop.simps [simp del]

text \<open>
  Lines 126-198, entered with the three validated values. \<^verbatim>\<open>~7u\<close> is the
  \<^verbatim>\<open>unsigned int\<close> \<open>0xFFFFFFF8\<close>, widened with zeros.
\<close>

definition run :: "token list \<Rightarrow> env \<Rightarrow> u64 \<Rightarrow> u64 \<Rightarrow> u64 \<Rightarrow> int \<times> event list" where
  "run active_tokens e vh vw vf =
     (let height = unat vh;
          width = unat vw;
          max_fps = unat vf;
          sleep_seconds = (if max_fps \<noteq> 0 then 1 div max_fps else 0);
          sleep_ns = (if max_fps \<noteq> 0 then 1000000000 div max_fps mod 1000000000 else 0);
          buffer_area = unat ((vh * vw + 7) AND 0xFFFFFFF8);
          draw_buffer_area = 3 * (width + 1) * height;
          allocs = [Malloc (draw_buffer_area * 2), Malloc buffer_area, Malloc buffer_area]
      in if \<not> malloc_ok e then (1, allocs @ [Stderr_malloc])
         else
           (let front = randomize (rand_value e) (buffer_area div 8)
                          (map (fresh_cells e) [0..<buffer_area]);
                back = front;
                d = init_draw_buffer (map (fresh_tokens e) [0..<draw_buffer_area]) height width;
                st = main_loop active_tokens (interrupted e) height width sleep_seconds sleep_ns
                       \<lparr>front_buffer = front, back_buffer = back, draw = d, gen = 0,
                        out = allocs\<rparr>
            in (0, out st)))"

definition main :: "env \<Rightarrow> string list \<Rightarrow> int \<times> event list" where
  "main e argv =
     (if \<not> signal_ok e then (1, [Stderr_signal])
      else if wants_usage argv then (0, [Stdout_usage])
      else
        (let active_tokens = (if bw_flag argv then bw_tokens_4bit else color_tokens_4bit);
             argv' = (if bw_flag argv then tl argv else argv)
         in case parse_vals argv' of
              Inl err \<Rightarrow> (1, [err])
            | Inr (vh, vw, vf) \<Rightarrow> run active_tokens e vh vw vf))"

subsection \<open>Reading the driver's behaviour\<close>

text \<open>
  The three value arguments, after the shift that the monochrome flag causes.
\<close>

definition value_args :: "string list \<Rightarrow> string list" where
  "value_args argv = (if bw_flag argv then tl argv else argv)"

text \<open>
  Decimal parsing in the words of the claim: after white space and one sign, the digits
  consumed and the characters left after them. Parsing fails when no digit is consumed
  or characters are left. A value is out of range when what \<^verbatim>\<open>strtoul\<close> returns for
  it lies outside the bounds of its field.
\<close>

definition number_split :: "string \<Rightarrow> string \<times> string" where
  "number_split s =
     (let s1 = dropWhile isspace s;
          s2 = (if take 1 s1 = ''-'' \<or> take 1 s1 = ''+'' then drop 1 s1 else s1)
      in (takeWhile isdigit s2, dropWhile isdigit s2))"

definition fails_decimal_parsing :: "string \<Rightarrow> bool" where
  "fails_decimal_parsing s = (fst (number_split s) = [] \<or> snd (number_split s) \<noteq> [])"

definition parsed_value :: "string \<Rightarrow> u64" where
  "parsed_value s = fst (strtoul s)"

definition out_of_range :: "nat \<Rightarrow> string \<Rightarrow> bool" where
  "out_of_range i s = (parsed_value s < min_vals ! i \<or> max_vals ! i < parsed_value s)"

definition rejected :: "nat \<Rightarrow> string \<Rightarrow> bool" where
  "rejected i s = (fails_decimal_parsing s \<or> out_of_range i s)"

text \<open>
  Every round of the generation loop that is entered leaves exactly one mark in the
  events: the frame it writes, or the reset code it prints when it is interrupted.
\<close>

fun is_round :: "event \<Rightarrow> bool" where
  "is_round (Stdout_frame d g) = True"
| "is_round Stdout_reset = True"
| "is_round e = False"

definition rounds :: "event list \<Rightarrow> nat" where
  "rounds events = length (filter is_round events)"

text \<open>
  An environment in which nothing fails, and one in which the interrupt arrives while
  the first frame is on the screen.
\<close>

definition calm_env :: env where
  "calm_env = \<lparr>signal_ok = True, malloc_ok = True, rand_value = 1,
     fresh_cells = (\<lambda>a. 0), fresh_tokens = (\<lambda>a. 0), interrupted = (\<lambda>g. False)\<rparr>"

definition interrupting_env :: env where
  "interrupting_env = calm_env\<lparr>interrupted := (\<lambda>g. 2 \<le> g)\<rparr>"

section \<open>Auxiliary notions of the proofs\<close>

text \<open>
  The pairs \<open>(y, x)\<close> in the order in which the two outer loops of \<^verbatim>\<open>do_gen_naive\<close>
  visit them.
\<close>

definition grid_keys :: "nat \<Rightarrow> nat \<Rightarrow> (int \<times> int) list" where
  "grid_keys height width = List.product (map int [0..<height]) (map int [0..<width])"

text \<open>
  Whether the wrapped neighbour \<open>k + d\<close> on an axis of length \<open>n\<close> falls on one of
  the two lines \<open>r\<close>, \<open>r + 1\<close> of a block, as a number.
\<close>

definition hits :: "nat \<Rightarrow> nat \<Rightarrow> nat \<Rightarrow> int \<Rightarrow> nat" where
  "hits n r k d = of_bool (wrap n k d = r \<or> wrap n k d = r + 1)"

section \<open>Helper lemmas\<close>

lemma smod_nonneg: "0 \<le> a \<Longrightarrow> 0 < b \<Longrightarrow> (a::int) smod b = a mod b"
  by (cases "a = 0") (simp_all add: smod_int_alt_def)

lemma odd_sint_cell: "odd (sint (c :: cell)) \<longleftrightarrow> odd c"
proof -
  have "bit (sint c) 0 \<longleftrightarrow> bit c 0"
    by (simp add: bit_sint_iff)
  then show ?thesis by (simp add: bit_0)
qed

lemma next_state_iff:
  "next_state live_count self =
     (if live_count = 3 \<or> (live_count = 4 \<and> odd self) then 1 else 0)"
  by (simp add: next_state_def and_one_eq one_and_eq mod_2_eq_odd odd_sint_cell)

lemma fold_update_length:
  "length (fold (\<lambda>k d. d[idx k := v k]) ks d) = length d"
  by (induction ks arbitrary: d) simp_all

lemma fold_update_other:
  "i \<notin> idx ` set ks \<Longrightarrow> fold (\<lambda>k d. d[idx k := v k]) ks d ! i = d ! i"
  by (induction ks arbitrary: d) auto

lemma fold_update_hit:
  "k \<in> set ks \<Longrightarrow> inj_on idx (set ks) \<Longrightarrow> distinct ks \<Longrightarrow> idx k < length d \<Longrightarrow>
   fold (\<lambda>k d. d[idx k := v k]) ks d ! idx k = v k"
proof (induction ks arbitrary: d)
  case Nil
  then show ?case by simp
next
  case (Cons a ks)
  show ?case
  proof (cases "k = a")
    case True
    with Cons.prems have "idx k \<notin> idx ` set ks"
      by (auto simp: inj_on_def)
    then show ?thesis using True Cons.prems(4)
      by (simp add: fold_update_other)
  next
    case False
    with Cons.prems have "k \<in> set ks" "inj_on idx (set ks)" "distinct ks"
      by (auto simp: inj_on_def)
    then show ?thesis using Cons.IH [of "d[idx a := v a]"] Cons.prems(4)
      by simp
  qed
qed

lemma fold_fold_product:
  "fold (\<lambda>y. fold (f y) xs) ys d = fold (\<lambda>(y, x). f y x) (List.product ys xs) d"
  by (induction ys arbitrary: d) (simp_all add: fold_map comp_def)

subsection \<open>The stepper writes every cell of the grid once\<close>


lemma grid_keys_set:
  "set (grid_keys height width) = {(int y, int x) | y x. y < height \<and> x < width}"
  by (auto simp: grid_keys_def)

lemma grid_keys_distinct: "distinct (grid_keys height width)"
  by (simp add: grid_keys_def distinct_product distinct_map inj_on_def)

lemma grid_index_inj:
  "inj_on (\<lambda>(y, x). nat (y * int width + x)) (set (grid_keys height width))"
proof (rule inj_onI, clarsimp simp: grid_keys_set)
  fix y x y' x' :: nat
  assume b: "x < width" "x' < width"
    and e: "nat (int y * int width + int x) = nat (int y' * int width + int x')"
  have "nat (int y * int width + int x) = y * width + x"
       "nat (int y' * int width + int x') = y' * width + x'"
    by (simp_all add: nat_add_distrib nat_mult_distrib)
  with e have e': "y * width + x = y' * width + x'" by simp
  from e' b have "(y * width + x) div width = (y' * width + x') div width" by simp
  with b have "y = y'" by simp
  with e' show "y = y' \<and> x = x'" by simp
qed

lemma do_gen_naive_fold:
  "do_gen_naive dst src height width =
     fold (\<lambda>k d. d[(\<lambda>(y, x). nat (y * int width + x)) k :=
                   (\<lambda>(y, x). next_state (live_count_at src (int height) (int width) y x)
                              (src ! nat (y * int width + x))) k])
       (grid_keys height width) dst"
proof -
  have "(\<lambda>(y, x) d. d[nat (y * int width + x) :=
            next_state (live_count_at src (int height) (int width) y x)
              (src ! nat (y * int width + x))]) =
        (\<lambda>k d. d[(\<lambda>(y, x). nat (y * int width + x)) k :=
                   (\<lambda>(y, x). next_state (live_count_at src (int height) (int width) y x)
                              (src ! nat (y * int width + x))) k])"
    by (simp add: fun_eq_iff split: prod.splits)
  then show ?thesis
    by (simp add: do_gen_naive_def grid_keys_def fold_fold_product Let_def)
qed

lemma do_gen_naive_length: "length (do_gen_naive dst src height width) = length dst"
  by (simp add: do_gen_naive_fold fold_update_length)

lemma do_gen_naive_nth:
  assumes "y < height" "x < width" "height * width \<le> length dst"
  shows "do_gen_naive dst src height width ! (y * width + x) =
           next_state (live_count_at src (int height) (int width) (int y) (int x))
             (src ! (y * width + x))"
proof -
  have k: "(int y, int x) \<in> set (grid_keys height width)"
    using assms by (auto simp: grid_keys_set)
  have "y * width + x < height * width"
  proof -
    have "y * width + x < (y + 1) * width" using assms(2) by simp
    also have "\<dots> \<le> height * width" using assms(1) by (intro mult_le_mono1) simp
    finally show ?thesis .
  qed
  then have lt: "(\<lambda>(y, x). nat (y * int width + x)) (int y, int x) < length dst"
    using assms(3) by (simp add: nat_add_distrib nat_mult_distrib)
  show ?thesis
    unfolding do_gen_naive_fold
    using fold_update_hit [OF k grid_index_inj grid_keys_distinct lt,
        of "\<lambda>(y, x). next_state (live_count_at src (int height) (int width) y x)
                              (src ! nat (y * int width + x))"]
    by (simp add: nat_add_distrib nat_mult_distrib)
qed

lemma do_gen_naive_beyond:
  assumes "height * width \<le> i"
  shows "do_gen_naive dst src height width ! i = dst ! i"
proof -
  have "i \<notin> (\<lambda>(y, x). nat (y * int width + x)) ` set (grid_keys height width)"
  proof
    assume "i \<in> (\<lambda>(y, x). nat (y * int width + x)) ` set (grid_keys height width)"
    then obtain y x where yx: "y < height" "x < width" "i = y * width + x"
      by (auto simp: grid_keys_set nat_add_distrib nat_mult_distrib)
    have "y * width + x < (y + 1) * width" using yx(2) by simp
    also have "\<dots> \<le> height * width" using yx(1) by (intro mult_le_mono1) simp
    finally show False using assms yx(3) by simp
  qed
  then show ?thesis
    unfolding do_gen_naive_fold by (rule fold_update_other)
qed


lemma cell_index:
  assumes "0 < height" "0 < width" "- 1 \<le> dy" "- 1 \<le> dx"
  shows "nat ((dy + int y + int height) smod int height * int width
              + (dx + int x + int width) smod int width) =
         wrap height y dy * width + wrap width x dx"
proof -
  have a: "(dy + int y + int height) smod int height = (int y + dy + int height) mod int height"
    using assms by (simp add: smod_nonneg add.commute add.left_commute)
  have b: "(dx + int x + int width) smod int width = (int x + dx + int width) mod int width"
    using assms by (simp add: smod_nonneg add.commute add.left_commute)
  have "0 \<le> (int y + dy + int height) mod int height" "0 \<le> (int x + dx + int width) mod int width"
    using assms by simp_all
  then show ?thesis
    unfolding a b wrap_def by (simp add: nat_add_distrib nat_mult_distrib)
qed

lemma live_count_at_eq:
  assumes "0 < height" "0 < width"
  shows "live_count_at src (int height) (int width) (int y) (int x) =
           of_nat (window_count src height width x y)"
proof -
  note c = cell_index [OF assms, of _ _ y x]
  have "live_count_at src (int height) (int width) (int y) (int x) =
          fold (\<lambda>dy. fold (\<lambda>dx live_count.
                  live_count + src ! (wrap height y dy * width + wrap width x dx))
                [-1, 0, 1])
            [-1, 0, 1] 0"
    unfolding live_count_at_def
    using c [of "-1" "-1"] c [of "-1" 0] c [of "-1" 1] c [of 0 "-1"] c [of 0 0] c [of 0 1]
      c [of 1 "-1"] c [of 1 0] c [of 1 1]
    by simp
  then show ?thesis
    by (simp add: window_count_def cell_at_def)
qed

lemma wrap_less: "0 < n \<Longrightarrow> wrap n k d < n"
  by (simp add: wrap_def nat_less_iff)

lemma grid_index_less: "y < height \<Longrightarrow> x < width \<Longrightarrow> y * width + x < height * (width :: nat)"
proof -
  assume "y < height" "x < width"
  have "y * width + x < (y + 1) * width" using \<open>x < width\<close> by simp
  also have "\<dots> \<le> height * width" using \<open>y < height\<close> by (intro mult_le_mono1) simp
  finally show ?thesis .
qed

lemma binary_nth: "binary cells \<Longrightarrow> i < length cells \<Longrightarrow> cells ! i = 0 \<or> cells ! i = 1"
  by (simp add: binary_def list_all_length)

lemma cell_at_le_1:
  assumes "binary src" "height * width \<le> length src" "y < height" "x < width"
  shows "cell_at src width y x \<le> 1"
proof -
  have "y * width + x < length src"
    using grid_index_less [OF assms(3,4)] assms(2) by simp
  from binary_nth [OF assms(1) this] show ?thesis
    by (auto simp: cell_at_def)
qed

lemma window_count_le_9:
  assumes "binary src" "height * width \<le> length src" "0 < height" "0 < width"
  shows "window_count src height width x y \<le> 9"
proof -
  have "cell_at src width (wrap height y dy) (wrap width x dx) \<le> 1" for dy dx
    using assms by (intro cell_at_le_1 [where height = height]) (simp_all add: wrap_less)
  note c = this
  show ?thesis
    unfolding window_count_def
    using c [of "-1" "-1"] c [of "-1" 0] c [of "-1" 1] c [of 0 "-1"] c [of 0 0] c [of 0 1]
      c [of 1 "-1"] c [of 1 0] c [of 1 1]
    by simp
qed

lemma of_nat_cell_eq_iff:
  "n < 256 \<Longrightarrow> m < 256 \<Longrightarrow> (of_nat n :: cell) = of_nat m \<longleftrightarrow> n = m"
  by (simp add: word_of_nat_eq_iff take_bit_nat_eq_self)


lemma wrap_0: "k < n \<Longrightarrow> wrap n k 0 = k"
  by (simp add: wrap_def)

lemma wrap_succ: "k < n \<Longrightarrow> wrap n k 1 = (if k + 1 = n then 0 else k + 1)"
proof -
  assume "k < n"
  have "int k + 1 + int n = int (k + 1 + n)" by simp
  then have "wrap n k 1 = nat (int ((k + 1 + n) mod n))"
    unfolding wrap_def by (simp only: zmod_int)
  also have "\<dots> = (Suc k + n) mod n" by simp
  also have "\<dots> = Suc k mod n" by (simp only: mod_add_self2)
  finally show ?thesis using \<open>k < n\<close> by (auto simp: mod_Suc)
qed

lemma wrap_pred: "k < n \<Longrightarrow> wrap n k (- 1) = (if k = 0 then n - 1 else k - 1)"
proof -
  assume "k < n"
  have "(int k + - 1 + int n) mod int n = (int k - 1) mod int n"
    by (metis add.commute add_uminus_conv_diff mod_add_self1 add.assoc)
  also have "\<dots> = (if k = 0 then int n - 1 else int k - 1)"
    using \<open>k < n\<close> by (auto simp: mod_pos_pos_trivial zmod_minus1)
  finally show ?thesis using \<open>k < n\<close> by (auto simp add: wrap_def)
qed

lemma step_cell:
  assumes "0 < height" "0 < width" "binary src" "height * width \<le> length src"
    "height * width \<le> length dst" "y < height" "x < width"
  shows "do_gen_naive dst src height width ! (y * width + x) =
           (if window_count src height width x y = 3 \<or>
               (window_count src height width x y = 4 \<and> src ! (y * width + x) = 1)
            then 1 else 0)"
proof -
  let ?c = "window_count src height width x y"
  have c9: "?c \<le> 9" using assms by (intro window_count_le_9) simp_all
  have c3: "(of_nat ?c :: cell) = 3 \<longleftrightarrow> ?c = 3"
    using of_nat_cell_eq_iff [of ?c 3] c9 by simp
  have c4: "(of_nat ?c :: cell) = 4 \<longleftrightarrow> ?c = 4"
    using of_nat_cell_eq_iff [of ?c 4] c9 by simp
  have "y * width + x < length src"
    using grid_index_less [OF assms(6,7)] assms(4) by simp
  from binary_nth [OF assms(3) this]
  have odd: "odd (src ! (y * width + x)) \<longleftrightarrow> src ! (y * width + x) = 1"
    by auto
  show ?thesis
    by (simp add: do_gen_naive_nth [OF assms(6,7,5)] live_count_at_eq [OF assms(1,2)]
        next_state_iff c3 c4 odd)
qed

lemma window_neighbour:
  assumes "y < height" "x < width"
  shows "window_count src height width x y =
           neighbour_count src height width x y + cell_at src width y x"
  using assms
  by (simp add: window_count_def neighbour_count_def neighbour_offsets_def wrap_0)


lemma step_conway_cell:
  assumes "0 < height" "0 < width" "binary src" "height * width \<le> length src"
    "height * width \<le> length dst" "y < height" "x < width"
  shows "do_gen_naive dst src height width ! (y * width + x) =
           of_bool (conway_alive (src ! (y * width + x) = 1)
                      (neighbour_count src height width x y))"
proof -
  have "y * width + x < length src"
    using grid_index_less [OF assms(6,7)] assms(4) by simp
  from binary_nth [OF assms(3) this]
  consider "src ! (y * width + x) = 0" | "src ! (y * width + x) = 1" by blast
  then show ?thesis
  proof cases
    case 1
    then show ?thesis
      by (simp add: step_cell [OF assms] window_neighbour [OF assms(6,7)] cell_at_def
          conway_alive_def)
  next
    case 2
    then show ?thesis
      by (auto simp add: step_cell [OF assms] window_neighbour [OF assms(6,7)] cell_at_def
          conway_alive_def)
  qed
qed

lemma step_conway:
  assumes "0 < height" "0 < width" "binary src" "height * width \<le> length src"
    "height * width \<le> length dst"
  shows "take (height * width) (do_gen_naive dst src height width) =
           conway_step src height width"
proof (rule nth_equalityI)
  show "length (take (height * width) (do_gen_naive dst src height width)) =
          length (conway_step src height width)"
    using assms(5) by (simp add: do_gen_naive_length conway_step_def)
next
  fix i
  assume "i < length (take (height * width) (do_gen_naive dst src height width))"
  then have i: "i < height * width" by simp
  then have x: "i mod width < width" using assms(2) by simp
  from i have y: "i div width < height"
    by (simp add: less_mult_imp_div_less)
  have e: "i div width * width + i mod width = i" by simp
  from step_conway_cell [OF assms y x] i
  show "take (height * width) (do_gen_naive dst src height width) ! i =
          conway_step src height width ! i"
    by (simp add: e conway_step_def)
qed

lemma next_state_binary: "next_state live_count self = 0 \<or> next_state live_count self = 1"
  by (simp add: next_state_iff)

lemma step_cells_binary:
  assumes "height * width \<le> length dst"
  shows "binary (take (height * width) (do_gen_naive dst src height width))"
  unfolding binary_def list_all_length
proof (intro allI impI)
  fix i
  assume "i < length (take (height * width) (do_gen_naive dst src height width))"
  then have i: "i < height * width" by simp
  then have "0 < width" by (cases width) simp_all
  then have x: "i mod width < width" by simp
  from i have y: "i div width < height"
    by (simp add: less_mult_imp_div_less)
  have e: "i div width * width + i mod width = i" by simp
  from do_gen_naive_nth [OF y x assms, of src] i
  show "take (height * width) (do_gen_naive dst src height width) ! i = 0 \<or>
        take (height * width) (do_gen_naive dst src height width) ! i = 1"
    using next_state_binary by (simp add: e)
qed

lemma hits_le_2:
  assumes "4 \<le> n" "k < n" "r + 1 < n"
  shows "hits n r k (- 1) + hits n r k 0 + hits n r k 1 \<le> 2"
proof -
  have "k = 0 \<or> k + 1 = n \<or> (0 < k \<and> k + 1 < n)" using assms(2) by linarith
  then show ?thesis
  proof (elim disjE)
    assume "k = 0"
    then show ?thesis using assms by (auto simp add: hits_def wrap_0 wrap_succ wrap_pred)
  next
    assume "k + 1 = n"
    then show ?thesis using assms by (auto simp add: hits_def wrap_0 wrap_succ wrap_pred)
  next
    assume "0 < k \<and> k + 1 < n"
    then show ?thesis using assms by (auto simp add: hits_def wrap_0 wrap_succ wrap_pred)
  qed
qed

lemma hits_eq_2:
  assumes "4 \<le> n" "k < n" "r + 1 < n" "k = r \<or> k = r + 1"
  shows "hits n r k (- 1) + hits n r k 0 + hits n r k 1 = 2"
proof -
  have "k = 0 \<or> k + 1 = n \<or> (0 < k \<and> k + 1 < n)" using assms(2) by linarith
  then show ?thesis
  proof (elim disjE)
    assume "k = 0"
    then show ?thesis using assms by (auto simp add: hits_def wrap_0 wrap_succ wrap_pred)
  next
    assume "k + 1 = n"
    then show ?thesis using assms by (auto simp add: hits_def wrap_0 wrap_succ wrap_pred)
  next
    assume "0 < k \<and> k + 1 < n"
    then show ?thesis using assms by (auto simp add: hits_def wrap_0 wrap_succ wrap_pred)
  qed
qed

lemma block_cell_at:
  assumes "y < height" "x < width"
  shows "cell_at (block_grid height width r c) width y x =
           of_bool (y = r \<or> y = r + 1) * of_bool (x = c \<or> x = c + 1)"
proof -
  have "y * width + x < height * width" by (rule grid_index_less [OF assms])
  then show ?thesis using assms
    by (simp add: cell_at_def block_grid_def)
qed

lemma block_window_count:
  assumes "0 < height" "0 < width"
  shows "window_count (block_grid height width r c) height width x y =
           (hits height r y (- 1) + hits height r y 0 + hits height r y 1) *
           (hits width c x (- 1) + hits width c x 0 + hits width c x 1)"
proof -
  have "cell_at (block_grid height width r c) width (wrap height y dy) (wrap width x dx) =
          hits height r y dy * hits width c x dx" for dy dx
    using assms by (simp add: block_cell_at wrap_less hits_def)
  then show ?thesis
    by (simp add: window_count_def algebra_simps)
qed

lemma block_grid_binary: "binary (block_grid height width r c)"
  by (auto simp add: binary_def block_grid_def list_all_length)

lemma prod_ne_3: "a \<le> 2 \<Longrightarrow> b \<le> 2 \<Longrightarrow> a * b \<noteq> (3::nat)"
proof
  assume a: "a \<le> 2" and b: "b \<le> 2" and p: "a * b = 3"
  from a consider "a = 0" | "a = 1" | "a = 2" by linarith
  then show False
  proof cases
    case 1 with p show False by simp
  next
    case 2 with p b show False by simp
  next
    case 3 with p have "2 * b = 3" by simp
    then show False by presburger
  qed
qed

lemma block_still:
  assumes "4 \<le> height" "4 \<le> width" "r + 1 < height" "c + 1 < width"
    "length dst = height * width"
  shows "do_gen_naive dst (block_grid height width r c) height width =
           block_grid height width r c"
proof (rule nth_equalityI)
  show "length (do_gen_naive dst (block_grid height width r c) height width) =
          length (block_grid height width r c)"
    using assms(5) by (simp add: do_gen_naive_length block_grid_def)
next
  fix i
  assume "i < length (do_gen_naive dst (block_grid height width r c) height width)"
  then have i: "i < height * width" using assms(5) by (simp add: do_gen_naive_length)
  define y x where "y = i div width" and "x = i mod width"
  have x: "x < width" using assms(2) by (simp add: x_def)
  have y: "y < height" using i by (simp add: y_def less_mult_imp_div_less)
  have e: "y * width + x = i" by (simp add: x_def y_def)
  let ?R = "hits height r y (- 1) + hits height r y 0 + hits height r y 1"
  let ?C = "hits width c x (- 1) + hits width c x 0 + hits width c x 1"
  have R: "?R \<le> 2" by (rule hits_le_2 [OF assms(1) y assms(3)])
  have C: "?C \<le> 2" by (rule hits_le_2 [OF assms(2) x assms(4)])
  have pos: "0 < height" "0 < width" using assms(1,2) by simp_all
  have len: "height * width \<le> length (block_grid height width r c)"
    by (simp add: block_grid_def)
  have ne3: "?R * ?C \<noteq> 3" by (rule prod_ne_3 [OF R C])
  have ld: "height * width \<le> length dst" using assms(5) by simp
  have cell: "block_grid height width r c ! i =
                of_bool ((y = r \<or> y = r + 1) \<and> (x = c \<or> x = c + 1))"
    using i by (simp add: block_grid_def x_def y_def)
  have st: "do_gen_naive dst (block_grid height width r c) height width ! i =
          (if ?R * ?C = 3 \<or> (?R * ?C = 4 \<and> block_grid height width r c ! i = 1)
           then 1 else 0)"
    using step_cell [OF pos block_grid_binary len ld y x]
    by (simp add: e block_window_count [OF pos])
  show "do_gen_naive dst (block_grid height width r c) height width ! i =
          block_grid height width r c ! i"
  proof (cases "(y = r \<or> y = r + 1) \<and> (x = c \<or> x = c + 1)")
    case True
    then have "?R = 2" "?C = 2"
      using hits_eq_2 [OF assms(1) y assms(3)] hits_eq_2 [OF assms(2) x assms(4)] by simp_all
    then show ?thesis using True by (simp add: st cell)
  next
    case False
    then show ?thesis using ne3 by (simp add: st cell)
  qed
qed

subsection \<open>The encoder writes the colour code of every cell unit and nothing else\<close>


lemma fill_cell_fields:
  "dbuf (fill_cell t a p s) =
     (dbuf s)[dptr s := t ! token_index (a ! abp s) (p ! pbp s)]"
  "dptr (fill_cell t a p s) = dptr s + 3"
  "abp (fill_cell t a p s) = abp s + 1"
  "pbp (fill_cell t a p s) = pbp s + 1"
  by (simp_all add: fill_cell_def)

lemma fill_cell_pow_ptrs:
  "dptr ((fill_cell t a p ^^ n) s) = dptr s + 3 * n \<and>
   abp ((fill_cell t a p ^^ n) s) = abp s + n \<and>
   pbp ((fill_cell t a p ^^ n) s) = pbp s + n \<and>
   length (dbuf ((fill_cell t a p ^^ n) s)) = length (dbuf s)"
  by (induction n) (simp_all add: fill_cell_fields)

lemma fill_cell_pow_miss:
  "(\<And>k. k < n \<Longrightarrow> j \<noteq> dptr s + 3 * k) \<Longrightarrow>
   dbuf ((fill_cell t a p ^^ n) s) ! j = dbuf s ! j"
proof (induction n)
  case 0
  then show ?case by simp
next
  case (Suc n)
  have "j \<noteq> dptr s + 3 * n" using Suc.prems [of n] by simp
  moreover have "dbuf ((fill_cell t a p ^^ n) s) ! j = dbuf s ! j"
    using Suc.prems by (intro Suc.IH) simp
  ultimately show ?case
    by (simp add: fill_cell_fields fill_cell_pow_ptrs)
qed

lemma fill_cell_pow_hit:
  "k < n \<Longrightarrow> dptr s + 3 * k < length (dbuf s) \<Longrightarrow>
   dbuf ((fill_cell t a p ^^ n) s) ! (dptr s + 3 * k) =
     t ! token_index (a ! (abp s + k)) (p ! (pbp s + k))"
proof (induction n)
  case 0
  then show ?case by simp
next
  case (Suc n)
  show ?case
  proof (cases "k = n")
    case True
    then show ?thesis using Suc.prems
      by (simp add: fill_cell_fields fill_cell_pow_ptrs)
  next
    case False
    then have "k < n" using Suc.prems by simp
    then show ?thesis using Suc.IH Suc.prems(2) False
      by (simp add: fill_cell_fields fill_cell_pow_ptrs)
  qed
qed

lemma fill_row_ptrs:
  "dptr (fill_row t a p w s) = dptr s + 3 * (w + 1) \<and>
   abp (fill_row t a p w s) = abp s + w \<and>
   pbp (fill_row t a p w s) = pbp s + w \<and>
   length (dbuf (fill_row t a p w s)) = length (dbuf s)"
  by (simp add: fill_row_def Let_def fill_cell_pow_ptrs)

lemma fill_row_dbuf:
  "dbuf (fill_row t a p w s) = dbuf ((fill_cell t a p ^^ w) s)"
  by (simp add: fill_row_def Let_def)

lemma fill_row_pow_ptrs:
  "dptr ((fill_row t a p w ^^ m) s) = dptr s + 3 * (w + 1) * m \<and>
   abp ((fill_row t a p w ^^ m) s) = abp s + w * m \<and>
   pbp ((fill_row t a p w ^^ m) s) = pbp s + w * m \<and>
   length (dbuf ((fill_row t a p w ^^ m) s)) = length (dbuf s)"
  by (induction m) (simp_all add: fill_row_ptrs algebra_simps)

lemma fill_row_pow_miss:
  "(\<And>y x. y < m \<Longrightarrow> x < w \<Longrightarrow> j \<noteq> dptr s + 3 * (y * (w + 1) + x)) \<Longrightarrow>
   dbuf ((fill_row t a p w ^^ m) s) ! j = dbuf s ! j"
proof (induction m)
  case 0
  then show ?case by simp
next
  case (Suc m)
  let ?s = "(fill_row t a p w ^^ m) s"
  have "dbuf (fill_row t a p w ?s) ! j = dbuf ?s ! j"
    unfolding fill_row_dbuf
  proof (rule fill_cell_pow_miss)
    fix k assume "k < w"
    then have "j \<noteq> dptr s + 3 * (m * (w + 1) + k)" using Suc.prems [of m k] by simp
    then show "j \<noteq> dptr ?s + 3 * k"
      by (simp add: fill_row_pow_ptrs algebra_simps)
  qed
  moreover have "dbuf ?s ! j = dbuf s ! j"
    using Suc.prems by (intro Suc.IH) simp
  ultimately show ?case by simp
qed

lemma unit_index_less:
  fixes y x m w :: nat
  assumes "y < m" "x < w"
  shows "y * (w + 1) + x < m * (w + 1)"
proof -
  have "y * (w + 1) + x < (y + 1) * (w + 1)" using assms(2) by simp
  also have "\<dots> \<le> m * (w + 1)" using assms(1) by (intro mult_le_mono1) simp
  finally show ?thesis .
qed

lemma fill_row_pow_hit:
  "y < m \<Longrightarrow> x < w \<Longrightarrow> dptr s + 3 * (y * (w + 1) + x) < length (dbuf s) \<Longrightarrow>
   dbuf ((fill_row t a p w ^^ m) s) ! (dptr s + 3 * (y * (w + 1) + x)) =
     t ! token_index (a ! (abp s + (y * w + x))) (p ! (pbp s + (y * w + x)))"
proof (induction m)
  case 0
  then show ?case by simp
next
  case (Suc m)
  let ?s = "(fill_row t a p w ^^ m) s"
  show ?case
  proof (cases "y = m")
    case True
    have r: "dptr ?s + 3 * x < length (dbuf ?s)"
      using Suc.prems(3) True by (simp add: fill_row_pow_ptrs algebra_simps)
    have "dbuf (fill_row t a p w ?s) ! (dptr ?s + 3 * x) =
            t ! token_index (a ! (abp ?s + x)) (p ! (pbp ?s + x))"
      unfolding fill_row_dbuf by (rule fill_cell_pow_hit [OF Suc.prems(2) r])
    then show ?thesis using True
      by (simp add: fill_row_pow_ptrs algebra_simps)
  next
    case False
    then have y: "y < m" using Suc.prems(1) by simp
    have lt: "y * (w + 1) + x < m * (w + 1)" by (rule unit_index_less [OF y Suc.prems(2)])
    have "dbuf (fill_row t a p w ?s) ! (dptr s + 3 * (y * (w + 1) + x)) =
            dbuf ?s ! (dptr s + 3 * (y * (w + 1) + x))"
      unfolding fill_row_dbuf
    proof (rule fill_cell_pow_miss)
      fix k assume "k < w"
      have "dptr s + 3 * (y * (w + 1) + x) < dptr s + 3 * (m * (w + 1))" using lt by simp
      then show "dptr s + 3 * (y * (w + 1) + x) \<noteq> dptr ?s + 3 * k"
        by (simp add: fill_row_pow_ptrs algebra_simps)
    qed
    moreover have "dbuf ?s ! (dptr s + 3 * (y * (w + 1) + x)) =
        t ! token_index (a ! (abp s + (y * w + x))) (p ! (pbp s + (y * w + x)))"
      by (rule Suc.IH [OF y Suc.prems(2,3)])
    ultimately show ?thesis by simp
  qed
qed

lemma fill_length:
  "length (fill_draw_buffer_4bit_color t d a p height width) = length d"
  by (simp add: fill_draw_buffer_4bit_color_def fill_row_pow_ptrs)

lemma slot_less:
  assumes "y < height" "x < width"
  shows "slot width y x < 3 * (width + 1) * height"
proof -
  have "y * (width + 1) + x < height * (width + 1)"
    by (rule unit_index_less [OF assms])
  then have "3 * (y * (width + 1) + x) + 3 \<le> 3 * (width + 1) * height"
    by (simp add: algebra_simps)
  then show ?thesis by (simp add: slot_def)
qed

lemma fill_slot:
  assumes "y < height" "x < width" "3 * (width + 1) * height \<le> length d"
  shows "fill_draw_buffer_4bit_color t d a p height width ! slot width y x =
           t ! token_index (a ! (y * width + x)) (p ! (y * width + x))"
proof -
  let ?s = "\<lparr>dbuf = d, dptr = 1, abp = 0, pbp = 0\<rparr>"
  have "dptr ?s + 3 * (y * (width + 1) + x) < length (dbuf ?s)"
    using slot_less [OF assms(1,2)] assms(3) by (simp add: slot_def)
  then have "dbuf ((fill_row t a p width ^^ height) ?s) ! (dptr ?s + 3 * (y * (width + 1) + x)) =
          t ! token_index (a ! (abp ?s + (y * width + x))) (p ! (pbp ?s + (y * width + x)))"
    by (intro fill_row_pow_hit assms(1,2))
  then show ?thesis
    by (simp add: fill_draw_buffer_4bit_color_def slot_def)
qed

lemma fill_frame:
  assumes "\<And>y x. y < height \<Longrightarrow> x < width \<Longrightarrow> j \<noteq> slot width y x"
  shows "fill_draw_buffer_4bit_color t d a p height width ! j = d ! j"
proof -
  let ?s = "\<lparr>dbuf = d, dptr = 1, abp = 0, pbp = 0\<rparr>"
  have "dbuf ((fill_row t a p width ^^ height) ?s) ! j = dbuf ?s ! j"
  proof (rule fill_row_pow_miss)
    fix y x assume "y < height" "x < width"
    from assms [OF this] show "j \<noteq> dptr ?s + 3 * (y * (width + 1) + x)"
      by (simp add: slot_def)
  qed
  then show ?thesis by (simp add: fill_draw_buffer_4bit_color_def)
qed

lemma token_index_binary:
  assumes "a = 0 \<or> a = 1" "p = 0 \<or> p = 1"
  shows "token_index a p = 2 * unat a + unat p"
  using assms by (auto simp: token_index_def)

lemma draw_bytes_nth:
  "p < 2 * length xs \<Longrightarrow> draw_bytes xs ! p = le_bytes (xs ! (p div 2)) ! (p mod 2)"
proof (induction xs arbitrary: p)
  case Nil
  then show ?case by simp
next
  case (Cons x xs)
  show ?case
  proof (cases "p < 2")
    case True
    then have "p = 0 \<or> p = 1" by auto
    then show ?thesis by (auto simp: draw_bytes_def le_bytes_def)
  next
    case False
    then obtain q where q: "p = q + 2" by (metis add.commute le_Suc_ex not_less)
    then have "q < 2 * length xs" using Cons.prems by simp
    from Cons.IH [OF this] have "draw_bytes xs ! q = le_bytes (xs ! (q div 2)) ! (q mod 2)" .
    moreover have "draw_bytes (x # xs) ! p = draw_bytes xs ! q"
      using q by (simp add: draw_bytes_def le_bytes_def nth_append)
    ultimately show ?thesis using q by simp
  qed
qed

lemma draw_bytes_length: "length (draw_bytes xs) = 2 * length xs"
  by (induction xs) (simp_all add: draw_bytes_def le_bytes_def)

lemma not_code_byte_not_slot:
  assumes "\<not> code_byte width p" "x < width"
  shows "p div 2 \<noteq> slot width y x"
proof
  assume e: "p div 2 = slot width y x"
  define u where "u = y * (width + 1) + x"
  define r where "r = p mod 2"
  have r: "r < 2" by (simp add: r_def)
  have "p = 2 * (p div 2) + r" by (simp add: r_def)
  also have "p div 2 = 3 * u + 1" using e by (simp add: slot_def u_def)
  finally have p: "p = 6 * u + (2 + r)" by simp
  have "p div 6 = u + (2 + r) div 6" unfolding p by (simp only: div_mult_self4)
  then have d: "p div 6 = u" using r by simp
  have "p mod 6 = (2 + r) mod 6" unfolding p by (simp only: mod_mult_self4)
  then have m: "p mod 6 = 2 + r" using r by simp
  have "u mod (width + 1) = x mod (width + 1)"
    unfolding u_def by (simp only: mod_mult_self3)
  then have "u mod (width + 1) = x" using assms(2) by simp
  then have "code_byte width p" using assms(2) r d m by (auto simp add: code_byte_def)
  with assms(1) show False by simp
qed

lemma fill_bytes_frame:
  assumes "length d = 3 * (width + 1) * height" "p < 6 * (width + 1) * height"
    "\<not> code_byte width p"
  shows "draw_bytes (fill_draw_buffer_4bit_color t d a b height width) ! p = draw_bytes d ! p"
proof -
  have l: "p < 2 * length d" using assms(1,2) by (simp add: algebra_simps)
  have "fill_draw_buffer_4bit_color t d a b height width ! (p div 2) = d ! (p div 2)"
    by (rule fill_frame) (rule not_code_byte_not_slot [OF assms(3)])
  then show ?thesis
    using l by (simp add: draw_bytes_nth fill_length)
qed

lemma token_codes:
  "token_code 0x3034 = ''40''" "token_code 0x3134 = ''41''"
  "token_code 0x3234 = ''42''" "token_code 0x3734 = ''47''"
  by (simp_all add: token_code_def drop_bit_eq_div char_of_def bit_0)

subsection \<open>Set-up: buffer sizes and the randomised grid\<close>

lemma round_down_8:
  assumes "n < 2 ^ 32"
  shows "(n :: nat) AND 4294967288 = 8 * (n div 8)"
proof -
  have m: "(4294967288 :: nat) = push_bit 3 (mask 29)"
    by (simp add: mask_eq_exp_minus_1 push_bit_eq_mult)
  have t: "take_bit 32 n = n" using assms by (simp add: take_bit_nat_eq_self)
  have "n AND push_bit 3 (mask 29) = push_bit 3 (drop_bit 3 n)"
  proof (rule bit_eqI)
    fix k
    have "bit n k \<Longrightarrow> k < 32"
      using t by (metis bit_take_bit_iff)
    then show "bit (n AND push_bit 3 (mask 29)) k = bit (push_bit 3 (drop_bit 3 n)) k"
      by (auto simp add: bit_simps)
  qed
  then show ?thesis
    unfolding m by (simp add: push_bit_eq_mult drop_bit_eq_div)
qed

lemma buffer_area_eq:
  fixes vh vw :: u64
  assumes "vh \<le> 2000" "vw \<le> 2000"
  shows "unat ((vh * vw + 7) AND 0xFFFFFFF8) = 8 * ((unat vh * unat vw + 7) div 8)"
proof -
  have h: "unat vh \<le> 2000" using assms(1) by (simp add: word_le_nat_alt)
  have w: "unat vw \<le> 2000" using assms(2) by (simp add: word_le_nat_alt)
  have "unat vh * unat vw \<le> 2000 * 2000" using h w by (rule mult_le_mono)
  then have b: "unat vh * unat vw + 7 < 2 ^ 32" by simp
  then have "unat (vh * vw + 7) = unat vh * unat vw + 7"
    by (simp add: unat_word_ariths take_bit_nat_eq_self unat_mult_lem [THEN iffD1])
  then show ?thesis
    using round_down_8 [OF b] by (simp add: unsigned_and_eq)
qed

lemma byte_and:
  "(ucast (drop_bit n (x AND y :: u64)) :: cell) = ucast (drop_bit n x) AND ucast (drop_bit n y)"
  by (rule bit_word_eqI) (auto simp add: bit_simps)

lemma mask_bytes:
  "(ucast (drop_bit 0 (0x0101010101010101 :: u64)) :: cell) = 1"
  "(ucast (drop_bit 8 (0x0101010101010101 :: u64)) :: cell) = 1"
  "(ucast (drop_bit 16 (0x0101010101010101 :: u64)) :: cell) = 1"
  "(ucast (drop_bit 24 (0x0101010101010101 :: u64)) :: cell) = 1"
  "(ucast (drop_bit 32 (0x0101010101010101 :: u64)) :: cell) = 1"
  "(ucast (drop_bit 40 (0x0101010101010101 :: u64)) :: cell) = 1"
  "(ucast (drop_bit 48 (0x0101010101010101 :: u64)) :: cell) = 1"
  "(ucast (drop_bit 56 (0x0101010101010101 :: u64)) :: cell) = 1"
  by (simp_all add: drop_bit_eq_div)

lemma and_1_binary: "(c :: cell) AND 1 = 0 \<or> c AND 1 = 1"
  by (simp add: and_one_eq mod_2_eq_odd)

lemma bytes_of_mask:
  assumes "k \<in> set [0, 1, 2, 3, 4, 5, 6, 7]"
  shows "(ucast (drop_bit (8 * k) (v AND (0x0101010101010101 :: u64))) :: cell) = 0 \<or>
         (ucast (drop_bit (8 * k) (v AND (0x0101010101010101 :: u64))) :: cell) = 1"
proof -
  have "(ucast (drop_bit (8 * k) (0x0101010101010101 :: u64)) :: cell) = 1"
    using assms mask_bytes by auto
  then show ?thesis
    unfolding byte_and using and_1_binary by simp
qed


lemma store_u64_length: "length (store_u64 mem p v) = length mem"
  by (simp add: store_u64_def)

lemma store_u64_nth:
  assumes "j < length mem"
  shows "store_u64 mem p v ! j =
     (if p \<le> j \<and> j < p + 8 then ucast (drop_bit (8 * (j - p)) v) else mem ! j)"
proof -
  have "j < p \<or> p + 8 \<le> j \<or> (\<exists>k\<in>set [0, 1, 2, 3, 4, 5, 6, 7]. j = p + k)"
  proof -
    have "p \<le> j \<Longrightarrow> j < p + 8 \<Longrightarrow> j - p \<in> set [0, 1, 2, 3, 4, 5, 6, 7 :: nat]"
      by (simp add: numeral_eq_Suc less_Suc_eq) arith
    then show ?thesis by (metis le_add_diff_inverse not_less)
  qed
  then show ?thesis
    using assms by (elim disjE bexE) (auto simp add: store_u64_def nth_list_update)
qed

lemma store_u64_binary:
  assumes "j < length mem" "p \<le> j" "j < p + 8"
  shows "store_u64 mem p (v AND 0x0101010101010101) ! j = 0 \<or>
         store_u64 mem p (v AND 0x0101010101010101) ! j = 1"
proof -
  have "j - p \<in> set [0, 1, 2, 3, 4, 5, 6, 7 :: nat]"
    using assms(2,3) by (simp add: numeral_eq_Suc less_Suc_eq) arith
  from bytes_of_mask [OF this, of v] show ?thesis
    using assms by (simp add: store_u64_nth)
qed

lemma randomize_word_apply:
  "randomize_word i (h, mem) =
     (fxhash h (of_nat i),
      store_u64 mem (8 * i) (fxhash h (of_nat i) AND 0x0101010101010101))"
  by (simp add: randomize_word_def Let_def)

lemma randomize_fold_length:
  "length (snd (fold randomize_word ws (h, mem))) = length mem"
  by (induction ws arbitrary: h mem)
    (simp_all add: randomize_word_def Let_def store_u64_length)

lemma randomize_fold_binary:
  assumes "j < length mem" "j < 8 * n"
  shows "snd (fold randomize_word [0..<n] (h, mem)) ! j = 0 \<or>
         snd (fold randomize_word [0..<n] (h, mem)) ! j = 1"
  using assms(2)
proof (induction n)
  case 0
  then show ?case by simp
next
  case (Suc n)
  obtain h' mem' where f: "fold randomize_word [0..<n] (h, mem) = (h', mem')"
    by (cases "fold randomize_word [0..<n] (h, mem)")
  have l: "length mem' = length mem"
    using randomize_fold_length [of "[0..<n]" h mem] f by simp
  show ?case
  proof (cases "j < 8 * n")
    case True
    with Suc.IH f have "mem' ! j = 0 \<or> mem' ! j = 1" by simp
    then show ?thesis using True f l assms(1)
      by (simp add: randomize_word_apply store_u64_nth)
  next
    case False
    then have "8 * n \<le> j" "j < 8 * n + 8" using Suc.prems by simp_all
    from store_u64_binary [of j mem' "8 * n", OF _ this] l assms(1)
    show ?thesis using f by (simp add: randomize_word_apply)
  qed
qed

lemma randomize_length: "length (randomize seed n mem) = length mem"
  by (simp add: randomize_def randomize_fold_length)

lemma randomize_binary:
  "j < length mem \<Longrightarrow> j < 8 * n \<Longrightarrow> randomize seed n mem ! j = 0 \<or> randomize seed n mem ! j = 1"
  unfolding randomize_def by (rule randomize_fold_binary)

subsection \<open>The scaffolding and the tokens of binary cells\<close>

lemma scaffold_cell_pow:
  "length (fst ((scaffold_cell ^^ n) (mem, dbp))) = length mem"
proof (induction n)
  case 0
  then show ?case by simp
next
  case (Suc n)
  obtain m q where "(scaffold_cell ^^ n) (mem, dbp) = (m, q)"
    by (cases "(scaffold_cell ^^ n) (mem, dbp)")
  with Suc show ?case by (simp add: scaffold_cell_def)
qed

lemma scaffold_row_length:
  "length (fst (scaffold_row width (mem, dbp))) = length mem"
proof -
  obtain m q where e: "(scaffold_cell ^^ width) (mem, dbp) = (m, q)"
    by (cases "(scaffold_cell ^^ width) (mem, dbp)")
  then have "length m = length mem" using scaffold_cell_pow [of width mem dbp] by simp
  then show ?thesis by (simp add: scaffold_row_def e)
qed

lemma scaffold_row_pow_length:
  "length (fst ((scaffold_row width ^^ n) (mem, dbp))) = length mem"
proof (induction n)
  case 0
  then show ?case by simp
next
  case (Suc n)
  obtain m q where e: "(scaffold_row width ^^ n) (mem, dbp) = (m, q)"
    by (cases "(scaffold_row width ^^ n) (mem, dbp)")
  with Suc have "length m = length mem" by simp
  then show ?case using scaffold_row_length [of width m q] by (simp add: e)
qed

lemma init_draw_buffer_length: "length (init_draw_buffer mem height width) = length mem"
  by (simp add: init_draw_buffer_def scaffold_row_pow_length)

lemma token_index_same:
  assumes "c = 0 \<or> c = 1"
  shows "token_index c c = 0 \<or> token_index c c = 3"
  using assms by (auto simp: token_index_def)


lemma binary_cell:
  assumes "binary cells" "height * width \<le> length cells" "y < height" "x < width"
  shows "cells ! (y * width + x) = 0 \<or> cells ! (y * width + x) = 1"
proof -
  have "y * width + x < length cells"
    using grid_index_less [OF assms(3,4)] assms(2) by simp
  then show ?thesis by (rule binary_nth [OF assms(1)])
qed

lemma fill_slot_binary:
  assumes "binary current" "binary previous"
    "height * width \<le> length current" "height * width \<le> length previous"
    "3 * (width + 1) * height \<le> length d" "y < height" "x < width"
  shows "fill_draw_buffer_4bit_color t d current previous height width ! slot width y x =
           t ! shift_or (current ! (y * width + x)) (previous ! (y * width + x))"
  using binary_cell [OF assms(1,3,6,7)] binary_cell [OF assms(2,4,6,7)]
  by (simp add: fill_slot [OF assms(6,7,5)] token_index_binary shift_or_def)

subsection \<open>The generation loop\<close>

lemma loop_body_fields:
  "gen (loop_body t h w s n st) = gen st"
  "out (loop_body t h w s n st) =
     out st @ [Stdout_frame (fill_draw_buffer_4bit_color t (draw st) (front_buffer st)
                 (back_buffer st) h w) (gen st)] @
     (if s \<noteq> 0 \<or> n \<noteq> 0 then [Sleep s n] else [])"
  by (simp_all add: loop_body_def Let_def)

lemma frames_of_append: "frames_of (a @ b) = frames_of a @ frames_of b"
  by (induction a rule: frames_of.induct) simp_all

lemma rounds_append: "rounds (a @ b) = rounds a + rounds b"
  by (simp add: rounds_def)

lemma main_loop_out_prefix:
  "\<exists>rest. out (main_loop t i h w s n st) = out st @ rest"
proof (induction t i h w s n st rule: main_loop.induct)
  case (1 t i h w s n st)
  show ?case
  proof (cases "gen st < 50000")
    case False
    then show ?thesis by (subst main_loop.simps) simp
  next
    case True
    show ?thesis
    proof (cases "i (gen st + 1)")
      case True
      with \<open>gen st < 50000\<close> show ?thesis by (subst main_loop.simps) simp
    next
      case False
      from "1.IH" [OF \<open>gen st < 50000\<close> refl] False
      obtain rest where
        "out (main_loop t i h w s n (loop_body t h w s n (st\<lparr>gen := gen st + 1\<rparr>))) =
           out (loop_body t h w s n (st\<lparr>gen := gen st + 1\<rparr>)) @ rest"
        by auto
      with True False show ?thesis
        by (subst main_loop.simps) (simp add: loop_body_fields)
    qed
  qed
qed

lemma main_loop_rounds:
  "gen st \<le> 50000 \<Longrightarrow>
   rounds (out (main_loop t i h w s n st)) + gen st \<le> rounds (out st) + 50000"
proof (induction t i h w s n st rule: main_loop.induct)
  case (1 t i h w s n st)
  show ?case
  proof (cases "gen st < 50000")
    case False
    with "1.prems" show ?thesis by (subst main_loop.simps) simp
  next
    case True
    show ?thesis
    proof (cases "i (gen st + 1)")
      case True
      with \<open>gen st < 50000\<close> show ?thesis
        by (subst main_loop.simps) (simp add: rounds_def)
    next
      case False
      have "rounds (out (main_loop t i h w s n (loop_body t h w s n (st\<lparr>gen := gen st + 1\<rparr>))))
              + gen (loop_body t h w s n (st\<lparr>gen := gen st + 1\<rparr>))
            \<le> rounds (out (loop_body t h w s n (st\<lparr>gen := gen st + 1\<rparr>))) + 50000"
        using True False by (intro "1.IH") (simp_all add: loop_body_fields)
      with True False show ?thesis
        by (subst main_loop.simps) (simp add: loop_body_fields rounds_def)
    qed
  qed
qed

lemma main_loop_first_frame:
  "frames_of (out (main_loop t i h w s n st)) = frames_of (out st) \<or>
   (\<exists>more. frames_of (out (main_loop t i h w s n st)) =
      frames_of (out st) @
      fill_draw_buffer_4bit_color t (draw st) (front_buffer st) (back_buffer st) h w # more)"
proof (cases "gen st < 50000 \<and> \<not> i (gen st + 1)")
  case False
  then show ?thesis
    by (subst main_loop.simps, subst (2) main_loop.simps) (auto simp add: frames_of_append)
next
  case True
  obtain rest where
    "out (main_loop t i h w s n (loop_body t h w s n (st\<lparr>gen := gen st + 1\<rparr>))) =
           out (loop_body t h w s n (st\<lparr>gen := gen st + 1\<rparr>)) @ rest"
    using main_loop_out_prefix by blast
  with True show ?thesis
    by (subst main_loop.simps, subst (2) main_loop.simps)
      (simp add: loop_body_fields frames_of_append)
qed

subsection \<open>Argument validation\<close>

lemma strtoul_end:
  "(case strtoul s of (v, endp, er) \<Rightarrow> endp = 0 \<or> endp < length s) \<longleftrightarrow>
     fails_decimal_parsing s"
proof -
  define s1 where "s1 = dropWhile isspace s"
  define s2 where "s2 = (if take 1 s1 = ''-'' \<or> take 1 s1 = ''+'' then drop 1 s1 else s1)"
  define ds where "ds = takeWhile isdigit s2"
  define rest where "rest = dropWhile isdigit s2"
  have "length s1 \<le> length s" by (simp add: s1_def length_dropWhile_le)
  then have l2: "length s2 \<le> length s" by (auto simp add: s2_def)
  have "ds @ rest = s2" by (simp add: ds_def rest_def)
  then have l: "length s2 = length ds + length rest" by (metis length_append)
  have f: "fails_decimal_parsing s \<longleftrightarrow> ds = [] \<or> rest \<noteq> []"
    by (simp add: fails_decimal_parsing_def number_split_def Let_def s1_def s2_def ds_def
        rest_def)
  have st: "strtoul s =
      (if ds = [] then (0, 0, False)
       else if 2 ^ 64 \<le> decimal ds then (- 1, length s - length s2 + length ds, True)
       else (if take 1 s1 = ''-'' then - of_nat (decimal ds) else of_nat (decimal ds),
             length s - length s2 + length ds, False))"
    unfolding strtoul_def Let_def s1_def s2_def ds_def ..
  have "(case strtoul s of (v, endp, er) \<Rightarrow> endp = 0 \<or> endp < length s) \<longleftrightarrow>
          ds = [] \<or> length s - length s2 + length ds < length s"
    unfolding st by auto
  also have "\<dots> \<longleftrightarrow> ds = [] \<or> rest \<noteq> []"
  proof -
    have "length s - length s2 + length ds < length s \<longleftrightarrow> 0 < length rest"
      using l l2 by arith
    then show ?thesis by auto
  qed
  finally show ?thesis using f by simp
qed

lemma strtoul_erange:
  "strtoul s = (v, endp, True) \<Longrightarrow> v = - 1"
  by (auto simp add: strtoul_def Let_def split: if_splits)

lemma parse_arg_eq:
  assumes "i < 3"
  shows "parse_arg argv i =
           (if rejected i (argv ! (i + 1))
            then Inl (Stderr_bad_input (i + 1) (field_names ! i) (min_vals ! i) (max_vals ! i))
            else Inr (parsed_value (argv ! (i + 1))))"
proof -
  obtain v endp er where e: "strtoul (argv ! (i + 1)) = (v, endp, er)"
    by (cases "strtoul (argv ! (i + 1))")
  have f: "fails_decimal_parsing (argv ! (i + 1)) \<longleftrightarrow> endp = 0 \<or> endp < length (argv ! (i + 1))"
    using strtoul_end [of "argv ! (i + 1)"] e by simp
  have "i = 0 \<or> i = 1 \<or> i = 2" using assms by auto
  then have m: "max_vals ! i < (- 1 :: u64)"
    by (auto simp add: max_vals_def)
  have "er \<Longrightarrow> max_vals ! i < v"
    using strtoul_erange [of "argv ! (i + 1)" v endp] e m by simp
  then show ?thesis
    using e f by (auto simp add: parse_arg_def rejected_def out_of_range_def parsed_value_def)
qed

lemma parse_vals_eq:
  "parse_vals argv =
     (if rejected 0 (argv ! 1)
      then Inl (Stderr_bad_input 1 (field_names ! 0) (min_vals ! 0) (max_vals ! 0))
      else if rejected 1 (argv ! 2)
      then Inl (Stderr_bad_input 2 (field_names ! 1) (min_vals ! 1) (max_vals ! 1))
      else if rejected 2 (argv ! 3)
      then Inl (Stderr_bad_input 3 (field_names ! 2) (min_vals ! 2) (max_vals ! 2))
      else Inr (parsed_value (argv ! 1), parsed_value (argv ! 2), parsed_value (argv ! 3)))"
  using parse_arg_eq [of 0 argv] parse_arg_eq [of 1 argv] parse_arg_eq [of 2 argv]
  by (simp add: parse_vals_def numeral_2_eq_2 numeral_3_eq_3)

lemma parse_vals_rejected:
  assumes "i < 3" "rejected i (argv ! (i + 1))"
  shows "\<exists>ev. parse_vals argv = Inl ev \<and> is_stderr ev"
proof -
  have "i = 0 \<or> i = 1 \<or> i = 2" using assms(1) by auto
  then show ?thesis
    using assms(2) by (auto simp add: parse_vals_eq numeral_2_eq_2 numeral_3_eq_3)
qed

lemma parse_vals_Inr:
  assumes "parse_vals argv = Inr (vh, vw, vf)"
  shows "vh = parsed_value (argv ! 1) \<and> vw = parsed_value (argv ! 2) \<and>
         vf = parsed_value (argv ! 3) \<and>
         \<not> rejected 0 (argv ! 1) \<and> \<not> rejected 1 (argv ! 2) \<and> \<not> rejected 2 (argv ! 3)"
  using assms by (auto simp add: parse_vals_eq split: if_splits)

lemma u64_ge_1: "x \<noteq> 0 \<Longrightarrow> 1 \<le> (x :: u64)"
  by (metis not_less word_less_1)

lemma accepted_ranges:
  "\<not> rejected 0 s \<Longrightarrow> 1 \<le> parsed_value s \<and> parsed_value s \<le> 2000"
  "\<not> rejected 1 s \<Longrightarrow> 1 \<le> parsed_value s \<and> parsed_value s \<le> 2000"
  "\<not> rejected 2 s \<Longrightarrow> parsed_value s \<le> 4800"
  by (simp_all add: rejected_def out_of_range_def min_vals_def max_vals_def not_less u64_ge_1)

subsection \<open>The run after validation\<close>

lemma run_first_frame:
  assumes "vh \<le> 2000" "vw \<le> 2000"
    and "frames_of (snd (run t e vh vw vf)) = f # fs"
  shows "\<exists>front d. f = fill_draw_buffer_4bit_color t d front front (unat vh) (unat vw) \<and>
           length d = 3 * (unat vw + 1) * unat vh \<and> binary front \<and>
           unat vh * unat vw \<le> length front"
proof -
  define area where "area = unat ((vh * vw + 7) AND 0xFFFFFFF8)"
  define front where
    "front = randomize (rand_value e) (area div 8) (map (fresh_cells e) [0..<area])"
  define d where
    "d = init_draw_buffer (map (fresh_tokens e) [0..<3 * (unat vw + 1) * unat vh])
           (unat vh) (unat vw)"
  define s where "s = (if unat vf \<noteq> 0 then 1 div unat vf else 0)"
  define n where "n = (if unat vf \<noteq> 0 then 1000000000 div unat vf mod 1000000000 else 0)"
  define allocs where
    "allocs = [Malloc (3 * (unat vw + 1) * unat vh * 2), Malloc area, Malloc area]"
  define st0 where
    "st0 = \<lparr>front_buffer = front, back_buffer = front, draw = d, gen = 0, out = allocs\<rparr>"
  have r: "run t e vh vw vf =
             (if \<not> malloc_ok e then (1, allocs @ [Stderr_malloc])
              else (0, out (main_loop t (interrupted e) (unat vh) (unat vw) s n st0)))"
    by (simp add: run_def Let_def area_def front_def d_def s_def n_def allocs_def st0_def)
  have a: "area = 8 * ((unat vh * unat vw + 7) div 8)"
    unfolding area_def by (rule buffer_area_eq [OF assms(1,2)])
  have lf: "length front = area" by (simp add: front_def randomize_length)
  have "binary front"
    unfolding binary_def list_all_length
  proof (intro allI impI)
    fix j assume "j < length front"
    then have "j < area" using lf by simp
    then have "j < length (map (fresh_cells e) [0..<area])" "j < 8 * (area div 8)"
      using a by simp_all
    then show "front ! j = 0 \<or> front ! j = 1"
      unfolding front_def by (rule randomize_binary)
  qed
  moreover have "unat vh * unat vw \<le> length front"
    unfolding lf a by arith
  moreover have "length d = 3 * (unat vw + 1) * unat vh"
    by (simp add: d_def init_draw_buffer_length)
  moreover have "f = fill_draw_buffer_4bit_color t d front front (unat vh) (unat vw)"
  proof (cases "malloc_ok e")
    case False
    with assms(3) r show ?thesis by (simp add: allocs_def)
  next
    case True
    have fa: "frames_of allocs = []" by (simp add: allocs_def)
    from main_loop_first_frame [of t "interrupted e" "unat vh" "unat vw" s n st0]
    show ?thesis using assms(3) r True fa by (auto simp add: st0_def)
  qed
  ultimately show ?thesis by blast
qed

lemma unchanged_cell_code:
  assumes "c = 0 \<or> c = 1" "t = color_tokens_4bit \<or> t = bw_tokens_4bit"
  shows "token_code (t ! token_index c c) = ''40'' \<or> token_code (t ! token_index c c) = ''47''"
  using assms
  by (auto simp add: token_index_def color_tokens_4bit_def bw_tokens_4bit_def token_codes)

lemma main_frames:
  assumes "frames_of (snd (main e argv)) = f # fs"
  shows "signal_ok e \<and> \<not> wants_usage argv \<and>
         (\<exists>vh vw vf. parse_vals (value_args argv) = Inr (vh, vw, vf) \<and>
            main e argv = run (if bw_flag argv then bw_tokens_4bit else color_tokens_4bit)
              e vh vw vf)"
proof -
  have s: "signal_ok e" using assms by (auto simp add: main_def split: if_splits)
  have u: "\<not> wants_usage argv" using assms s by (auto simp add: main_def split: if_splits)
  show ?thesis
  proof (cases "parse_vals (value_args argv)")
    case (Inl ev)
    then have "frames_of (snd (main e argv)) = frames_of [ev]"
      using s u by (simp add: main_def value_args_def)
    moreover have "is_stderr ev"
      using Inl by (auto simp add: parse_vals_eq split: if_splits)
    then have "frames_of [ev] = []" by (cases ev) simp_all
    ultimately show ?thesis using assms by simp
  next
    case (Inr v)
    then show ?thesis using s u
      by (cases v) (auto simp add: main_def value_args_def Let_def)
  qed
qed

lemma rounds_stderr: "is_stderr ev \<Longrightarrow> rounds [ev] = 0"
  by (cases ev) (simp_all add: rounds_def)

lemma run_rounds: "rounds (snd (run t e vh vw vf)) \<le> 50000"
proof (cases "malloc_ok e")
  case False
  then show ?thesis by (simp add: run_def Let_def rounds_def)
next
  case True
  have "rounds (out (main_loop t i h w s n
          \<lparr>front_buffer = f, back_buffer = b, draw = d, gen = 0,
           out = [Malloc k, Malloc l, Malloc m]\<rparr>)) \<le> 50000" for i h w s n f b d k l m
    using main_loop_rounds [of "\<lparr>front_buffer = f, back_buffer = b, draw = d, gen = 0,
           out = [Malloc k, Malloc l, Malloc m]\<rparr>" t i h w s n]
    by (simp add: rounds_def)
  then show ?thesis using True by (simp add: run_def Let_def)
qed

lemma run_exit: "malloc_ok e \<Longrightarrow> fst (run t e vh vw vf) = 0"
  by (simp add: run_def Let_def)

lemma main_cases:
  "main e argv =
     (if \<not> signal_ok e then (1, [Stderr_signal])
      else if wants_usage argv then (0, [Stdout_usage])
      else case parse_vals (value_args argv) of
             Inl err \<Rightarrow> (1, [err])
           | Inr (vh, vw, vf) \<Rightarrow>
               run (if bw_flag argv then bw_tokens_4bit else color_tokens_4bit) e vh vw vf)"
  by (simp add: main_def value_args_def Let_def)

subsection \<open>Three command lines, evaluated\<close>

lemma small_run_args:
  "parse_vals (value_args [''gol'', ''2'', ''2'', ''0'']) = Inr (2, 2, 0)"
  by (simp add: value_args_def bw_flag_def parse_vals_def parse_arg_def strtoul_def
      decimal_def isspace_def isdigit_def min_vals_def max_vals_def field_names_def)

lemma small_run_flags:
  "\<not> wants_usage [''gol'', ''2'', ''2'', ''0'']" "\<not> bw_flag [''gol'', ''2'', ''2'', ''0'']"
  by (simp_all add: wants_usage_def bw_flag_def strncasecmp_eq_def tolower_def)

lemma interrupting_env_fields:
  "\<not> interrupted interrupting_env (Suc 0)" "interrupted interrupting_env (Suc (Suc 0))"
  "signal_ok interrupting_env" "malloc_ok interrupting_env"
  by (simp_all add: interrupting_env_def calm_env_def)

lemma small_run_frames:
  "frames_of (snd (main interrupting_env [''gol'', ''2'', ''2'', ''0''])) =
     [fill_draw_buffer_4bit_color color_tokens_4bit
        (init_draw_buffer (map (fresh_tokens interrupting_env) [0..<18]) 2 2)
        (randomize (rand_value interrupting_env) 1 (map (fresh_cells interrupting_env) [0..<8]))
        (randomize (rand_value interrupting_env) 1 (map (fresh_cells interrupting_env) [0..<8]))
        2 2]"
  using small_run_args small_run_flags
  by (simp add: main_def value_args_def run_def Let_def interrupting_env_fields
      main_loop.simps [of _ _ _ _ _ _
        "\<lparr>front_buffer = _, back_buffer = _, draw = _, gen = 0, out = _\<rparr>"]
      main_loop.simps [of _ _ _ _ _ _
        "\<lparr>front_buffer = _, back_buffer = _, draw = _, gen = Suc 0, out = _\<rparr>"]
      loop_body_def)

lemma wide_run_flags:
  "\<not> wants_usage [''gol'', ''2'', ''2001'', ''0'']"
  "value_args [''gol'', ''2'', ''2001'', ''0''] = [''gol'', ''2'', ''2001'', ''0'']"
  by (simp_all add: wants_usage_def value_args_def bw_flag_def strncasecmp_eq_def tolower_def)

lemma wide_run_rejected: "rejected 1 ''2001''"
  by (simp add: rejected_def out_of_range_def fails_decimal_parsing_def number_split_def
      parsed_value_def strtoul_def decimal_def isspace_def isdigit_def min_vals_def
      max_vals_def)

section \<open>The simulation stepper: claims\<close>

text \<open>
  C1. On a grid of positive height and width whose cells are 0 or 1, \<^verbatim>\<open>do_gen_naive\<close>
  sets cell \<open>(x, y)\<close> of the destination to 1 if and only if the count \<open>c\<close> of live
  cells in the wrapped 3x3 window around it, the cell itself included, is 3, or is 4
  with the cell alive in the source; every other cell is set to 0.
\<close>

theorem step_self_inclusive_rule:
  assumes "0 < height" and "0 < width"
    and "binary src" and "height * width \<le> length src"
    and "height * width \<le> length dst"
    and "y < height" and "x < width"
  shows "do_gen_naive dst src height width ! (y * width + x) =
           (if window_count src height width x y = 3 \<or>
               (window_count src height width x y = 4 \<and> src ! (y * width + x) = 1)
            then 1 else 0)"
  using assms by (rule step_cell)

theorem step_self_inclusive_rule_witness:
  "window_count [0, 1, 0, 0, 1, 0, 0, 1, 0] 3 3 0 1 = 3 \<and>
   do_gen_naive [0, 0, 0, 0, 0, 0, 0, 0, 0] [0, 1, 0, 0, 1, 0, 0, 1, 0] 3 3 ! (1 * 3 + 0) = 1 \<and>
   window_count [1, 1, 0, 1, 1, 0, 0, 0, 0] 3 3 2 2 = 4 \<and>
   do_gen_naive [5, 5, 5, 5, 5, 5, 5, 5, 5] [1, 1, 0, 1, 1, 0, 0, 0, 0] 3 3 ! (2 * 3 + 2) = 0"
proof -
  have b: "binary [0, 1, 0, 0, 1, 0, 0, 1, 0]" "binary [1, 1, 0, 1, 1, 0, 0, 0, 0]"
    by (simp_all add: binary_def)
  have c: "window_count [0, 1, 0, 0, 1, 0, 0, 1, 0] 3 3 0 1 = 3"
          "window_count [1, 1, 0, 1, 1, 0, 0, 0, 0] 3 3 2 2 = 4"
    by (simp_all add: window_count_def cell_at_def wrap_def)
  show ?thesis
    using step_self_inclusive_rule [of 3 3 "[0, 1, 0, 0, 1, 0, 0, 1, 0]"
        "[0, 0, 0, 0, 0, 0, 0, 0, 0]" 1 0]
      step_self_inclusive_rule [of 3 3 "[1, 1, 0, 1, 1, 0, 0, 0, 0]"
        "[5, 5, 5, 5, 5, 5, 5, 5, 5]" 2 2] b c
    by simp
qed

text \<open>
  C2. On such a grid the step is the conventional Game of Life step on the torus: the
  cells \<^verbatim>\<open>do_gen_naive\<close> writes are those of \<open>conway_step\<close>, in which a dead cell
  becomes alive on exactly three live neighbours and a live cell stays alive on two or
  three, the neighbours counted over the eight wrapped offsets.
\<close>

theorem step_refines_conway:
  assumes "0 < height" and "0 < width"
    and "binary src" and "height * width \<le> length src"
    and "height * width \<le> length dst"
  shows "take (height * width) (do_gen_naive dst src height width) =
           conway_step src height width"
  using assms by (rule step_conway)

theorem step_refines_conway_witness:
  "do_gen_naive [0, 0, 0, 0, 0, 0, 0, 0, 0] [0, 1, 0, 0, 1, 0, 0, 1, 0] 3 3 =
     conway_step [0, 1, 0, 0, 1, 0, 0, 1, 0] 3 3"
proof -
  have "binary [0, 1, 0, 0, 1, 0, 0, 1, 0]" by (simp add: binary_def)
  then have "take (3 * 3) (do_gen_naive [0, 0, 0, 0, 0, 0, 0, 0, 0]
                 [0, 1, 0, 0, 1, 0, 0, 1, 0] 3 3) =
             conway_step [0, 1, 0, 0, 1, 0, 0, 1, 0] 3 3"
    by (intro step_refines_conway) simp_all
  then show ?thesis by (simp add: do_gen_naive_length)
qed

text \<open>
  C6. The step keeps the dimensions: the destination has the length it had, its first
  \<open>height * width\<close> cells (row-major, index \<open>y * width + x\<close>) are each 0 or 1 after the
  call, and nothing beyond them is written.
\<close>

theorem step_output_shape:
  assumes "0 < height" and "0 < width"
    and "height * width \<le> length src"
    and "height * width \<le> length dst"
  shows "length (do_gen_naive dst src height width) = length dst \<and>
         binary (take (height * width) (do_gen_naive dst src height width)) \<and>
         drop (height * width) (do_gen_naive dst src height width) =
           drop (height * width) dst"
proof -
  have "drop (height * width) (do_gen_naive dst src height width) =
          drop (height * width) dst"
    by (rule nth_equalityI) (simp_all add: do_gen_naive_length do_gen_naive_beyond)
  then show ?thesis
    using step_cells_binary [OF assms(4)] by (simp add: do_gen_naive_length)
qed

theorem step_output_shape_witness:
  "length (do_gen_naive [7, 7, 7, 7, 7, 7, 9] [1, 1, 0, 1, 0, 0] 2 3) = 7 \<and>
   binary (take 6 (do_gen_naive [7, 7, 7, 7, 7, 7, 9] [1, 1, 0, 1, 0, 0] 2 3)) \<and>
   drop 6 (do_gen_naive [7, 7, 7, 7, 7, 7, 9] [1, 1, 0, 1, 0, 0] 2 3) = [9]"
  using step_output_shape [of 2 3 "[1, 1, 0, 1, 0, 0]" "[7, 7, 7, 7, 7, 7, 9]"]
  by simp

text \<open>
  C7. The block is a still life: on a grid at least four cells high and wide that is
  dead but for a 2x2 block of live cells in rows \<open>r\<close>, \<open>r + 1\<close> and columns \<open>c\<close>,
  \<open>c + 1\<close> (which do not wrap around an edge), the step writes the source grid.
\<close>

theorem block_is_still_life:
  assumes "4 \<le> height" and "4 \<le> width"
    and "r + 1 < height" and "c + 1 < width"
    and "length dst = height * width"
  shows "do_gen_naive dst (block_grid height width r c) height width =
           block_grid height width r c"
  using assms by (rule block_still)

theorem block_is_still_life_witness:
  "block_grid 4 5 1 2 = [0, 0, 0, 0, 0, 0, 0, 1, 1, 0, 0, 0, 1, 1, 0, 0, 0, 0, 0, 0] \<and>
   do_gen_naive (replicate 20 0) (block_grid 4 5 1 2) 4 5 = block_grid 4 5 1 2"
proof -
  have "block_grid 4 5 1 2 = [0, 0, 0, 0, 0, 0, 0, 1, 1, 0, 0, 0, 1, 1, 0, 0, 0, 0, 0, 0]"
    by code_simp
  moreover have "do_gen_naive (replicate 20 0) (block_grid 4 5 1 2) 4 5 = block_grid 4 5 1 2"
    by (rule block_is_still_life) simp_all
  ultimately show ?thesis by simp
qed

section \<open>The frame encoder: claims\<close>

text \<open>
  C3, as the code has it. For binary grids and a draw buffer of at least
  \<open>3 * (width + 1) * height\<close> half-words, \<^verbatim>\<open>fill_draw_buffer_4bit_color\<close> writes into
  the colour-code slot of every cell \<open>i = y * width + x\<close> the token
  \<^verbatim>\<open>token_table[(current[i] << 1) | previous[i]]\<close>: the current cell is the high bit of
  the index, the previous cell the low bit. With the coloured table the codes are those
  of the specification's table: dead to dead 40, dead to live 42, live to dead 41, live
  to live 47. With the monochrome table a cell that did not change gets 40 when dead and
  47 when live.
\<close>

theorem encode_writes_selected_token:
  assumes "binary current" and "binary previous"
    and "height * width \<le> length current" and "height * width \<le> length previous"
    and "3 * (width + 1) * height \<le> length draw_buffer"
    and "y < height" and "x < width"
  shows "fill_draw_buffer_4bit_color t draw_buffer current previous height width
           ! slot width y x =
         t ! shift_or (current ! (y * width + x)) (previous ! (y * width + x)) \<and>
         token_code (fill_draw_buffer_4bit_color color_tokens_4bit draw_buffer current previous
           height width ! slot width y x) =
         spec_colored_code (previous ! (y * width + x)) (current ! (y * width + x)) \<and>
         (previous ! (y * width + x) = current ! (y * width + x) \<longrightarrow>
          token_code (fill_draw_buffer_4bit_color bw_tokens_4bit draw_buffer current previous
            height width ! slot width y x) =
          spec_monochrome_code (previous ! (y * width + x)) (current ! (y * width + x)))"
proof -
  note c = binary_cell [OF assms(1,3,6,7)] and p = binary_cell [OF assms(2,4,6,7)]
  have "fill_draw_buffer_4bit_color t draw_buffer current previous height width
           ! slot width y x =
         t ! shift_or (current ! (y * width + x)) (previous ! (y * width + x))"
    by (rule fill_slot_binary [OF assms])
  moreover
  have "token_code (fill_draw_buffer_4bit_color color_tokens_4bit draw_buffer current previous
           height width ! slot width y x) =
         spec_colored_code (previous ! (y * width + x)) (current ! (y * width + x))"
    using c p
    by (auto simp add: fill_slot_binary [OF assms] shift_or_def color_tokens_4bit_def
        spec_colored_code_def token_codes)
  moreover
  have "previous ! (y * width + x) = current ! (y * width + x) \<longrightarrow>
         token_code (fill_draw_buffer_4bit_color bw_tokens_4bit draw_buffer current previous
           height width ! slot width y x) =
         spec_monochrome_code (previous ! (y * width + x)) (current ! (y * width + x))"
    using c p
    by (auto simp add: fill_slot_binary [OF assms] shift_or_def bw_tokens_4bit_def
        spec_monochrome_code_def token_codes)
  ultimately show ?thesis by simp
qed

theorem encode_writes_selected_token_witness:
  "fill_draw_buffer_4bit_color color_tokens_4bit (init_draw_buffer (replicate 18 0) 2 2)
     [1, 0, 0, 1] [0, 0, 1, 1] 2 2 ! slot 2 1 0 = color_tokens_4bit ! shift_or 0 1 \<and>
   token_code (fill_draw_buffer_4bit_color color_tokens_4bit
     (init_draw_buffer (replicate 18 0) 2 2) [1, 0, 0, 1] [0, 0, 1, 1] 2 2 ! slot 2 1 0) = ''41'' \<and>
   token_code (fill_draw_buffer_4bit_color bw_tokens_4bit
     (init_draw_buffer (replicate 18 0) 2 2) [1, 0, 0, 1] [1, 0, 1, 1] 2 2 ! slot 2 0 0) = ''47''"
proof -
  have b: "binary [1, 0, 0, 1]" "binary [0, 0, 1, 1]" "binary [1, 0, 1, 1]"
    by (simp_all add: binary_def)
  have l: "3 * (2 + 1) * 2 \<le> length (init_draw_buffer (replicate 18 0 :: token list) 2 2)"
    by (simp add: init_draw_buffer_length)
  show ?thesis
    using encode_writes_selected_token [OF b(1,2) _ _ l, of 1 0 color_tokens_4bit]
      encode_writes_selected_token [OF b(1,3) _ _ l, of 0 0 bw_tokens_4bit]
    by (simp add: spec_colored_code_def spec_monochrome_code_def shift_or_def
        color_tokens_4bit_def bw_tokens_4bit_def token_codes)
qed

text \<open>
  The claim as the specification states it fails on two counts. With previous cell 0
  and current cell 1 the coloured table's token is not the one at the specification's
  index \<^verbatim>\<open>(previous << 1) | current\<close>; and the monochrome code of that birth is not
  the 47 of the specification's table.
\<close>

theorem encode_spec_index_counterexample:
  "fill_draw_buffer_4bit_color color_tokens_4bit
     [0x5B1B, 0x3030, 0x206D, 0x5B1B, 0x3030, 0x0A6D] [1] [0] 1 1 ! slot 1 0 0
     \<noteq> color_tokens_4bit ! shift_or ([0] ! 0) ([1] ! 0) \<and>
   token_code (fill_draw_buffer_4bit_color bw_tokens_4bit
     [0x5B1B, 0x3030, 0x206D, 0x5B1B, 0x3030, 0x0A6D] [1] [0] 1 1 ! slot 1 0 0)
     \<noteq> spec_monochrome_code ([0] ! 0) ([1] ! 0)"
  by (simp add: fill_slot token_index_binary shift_or_def color_tokens_4bit_def
      bw_tokens_4bit_def spec_monochrome_code_def token_codes)

text \<open>
  C4. The worked example of the specification: two rows of two cells, current grid
  \<open>[1, 0, 0, 1]\<close>, previous grid all dead. The coloured table gives the codes
  42, 40, 40, 42 of the specification. The monochrome table gives 40 four times, not
  the specification's 47, 40, 40, 47: its entries are ordered by the low bit of the
  index, which is the previous cell, so a monochrome frame shows the previous grid.
\<close>

theorem encode_example_codes:
  "map token_code (cell_tokens (fill_draw_buffer_4bit_color color_tokens_4bit
      (init_draw_buffer (replicate 18 0) 2 2) [1, 0, 0, 1] [0, 0, 0, 0] 2 2) 2 2) =
     [''42'', ''40'', ''40'', ''42''] \<and>
   map token_code (cell_tokens (fill_draw_buffer_4bit_color bw_tokens_4bit
      (init_draw_buffer (replicate 18 0) 2 2) [1, 0, 0, 1] [0, 0, 0, 0] 2 2) 2 2) =
     [''40'', ''40'', ''40'', ''40'']"
  by (simp add: cell_tokens_def upt_rec fill_slot init_draw_buffer_length token_index_binary
      color_tokens_4bit_def bw_tokens_4bit_def token_codes)

text \<open>
  C5. The encoder changes nothing but colour codes. In the byte image of a draw buffer
  of \<open>height\<close> rows of \<open>width + 1\<close> six-byte units, every byte that is not the third
  or fourth byte of a cell unit is the same after the call as before it: the escape
  prefix and the suffix of every unit, and all six bytes of every row terminator. The
  image keeps its length.
\<close>

theorem encode_leaves_scaffolding:
  assumes "binary current" and "binary previous"
    and "height * width \<le> length current" and "height * width \<le> length previous"
    and "length draw_buffer = 3 * (width + 1) * height"
    and "p < 6 * (width + 1) * height" and "\<not> code_byte width p"
  shows "length (draw_bytes (fill_draw_buffer_4bit_color t draw_buffer current previous
           height width)) = length (draw_bytes draw_buffer) \<and>
         draw_bytes (fill_draw_buffer_4bit_color t draw_buffer current previous height width) ! p
           = draw_bytes draw_buffer ! p"
  using fill_bytes_frame [OF assms(5,6,7)] by (simp add: draw_bytes_length fill_length)

theorem encode_leaves_scaffolding_witness:
  "draw_bytes (init_draw_buffer [0, 0, 0, 0, 0, 0] 1 1) =
     [0x1B, 0x5B, 0x30, 0x30, 0x6D, 0x20, 0x1B, 0x5B, 0x30, 0x30, 0x6D, 0x0A] \<and>
   \<not> code_byte 1 8 \<and>
   draw_bytes (fill_draw_buffer_4bit_color color_tokens_4bit
     (init_draw_buffer [0, 0, 0, 0, 0, 0] 1 1) [1] [0] 1 1) ! 8 = 0x30 \<and>
   \<not> code_byte 1 5 \<and>
   draw_bytes (fill_draw_buffer_4bit_color color_tokens_4bit
     (init_draw_buffer [0, 0, 0, 0, 0, 0] 1 1) [1] [0] 1 1) ! 5 = 0x20"
proof -
  have i: "init_draw_buffer [0, 0, 0, 0, 0, 0] 1 1 =
             [0x5B1B, 0x3030, 0x206D, 0x5B1B, 0x3030, 0x0A6D]"
    by (simp add: init_draw_buffer_def scaffold_row_def scaffold_cell_def)
  have d: "draw_bytes [0x5B1B, 0x3030, 0x206D, 0x5B1B, 0x3030, 0x0A6D] =
             [0x1B, 0x5B, 0x30, 0x30, 0x6D, 0x20, 0x1B, 0x5B, 0x30, 0x30, 0x6D, 0x0A]"
    by (simp add: draw_bytes_def le_bytes_def drop_bit_eq_div)
  have b: "binary [1]" "binary [0]" by (simp_all add: binary_def)
  have c: "\<not> code_byte 1 8" "\<not> code_byte 1 5" by (simp_all add: code_byte_def)
  show ?thesis
    unfolding i
    using encode_leaves_scaffolding [OF b _ _ _ _ c(1), of 1 "[0x5B1B, 0x3030, 0x206D, 0x5B1B, 0x3030, 0x0A6D]" color_tokens_4bit]
      encode_leaves_scaffolding [OF b _ _ _ _ c(2), of 1 "[0x5B1B, 0x3030, 0x206D, 0x5B1B, 0x3030, 0x0A6D]" color_tokens_4bit]
      c
    by (simp add: d)
qed

section \<open>The driver: claims\<close>

text \<open>
  C8. The first frame shows no change. Whenever \<^verbatim>\<open>main\<close> writes a frame, the first one
  is encoded from a grid and its own copy (the previous grid of the first round is the
  \<^verbatim>\<open>memcpy\<close> of the current one), and the colour code of every cell \<open>(x, y)\<close> in it is
  40 or 47, in the coloured and in the monochrome mode: 41 and 42 do not occur.
\<close>

theorem first_frame_shows_no_change:
  assumes "parse_vals (value_args argv) = Inr (vh, vw, vf)"
    and "frames_of (snd (main e argv)) = f # fs"
    and "y < unat vh" and "x < unat vw"
  shows "(\<exists>cells d. binary cells \<and>
            f = fill_draw_buffer_4bit_color
                  (if bw_flag argv then bw_tokens_4bit else color_tokens_4bit)
                  d cells cells (unat vh) (unat vw)) \<and>
         (token_code (f ! slot (unat vw) y x) = ''40'' \<or>
          token_code (f ! slot (unat vw) y x) = ''47'')"
proof -
  let ?t = "if bw_flag argv then bw_tokens_4bit else color_tokens_4bit"
  from main_frames [OF assms(2)] assms(1)
  have m: "main e argv = run ?t e vh vw vf" by auto
  from parse_vals_Inr [OF assms(1)] accepted_ranges
  have r: "vh \<le> 2000" "vw \<le> 2000" by auto
  from run_first_frame [OF r, of ?t e vf f fs] assms(2) m
  obtain front d where f: "f = fill_draw_buffer_4bit_color ?t d front front (unat vh) (unat vw)"
    and d: "length d = 3 * (unat vw + 1) * unat vh" and b: "binary front"
    and l: "unat vh * unat vw \<le> length front"
    by auto
  have c: "front ! (y * unat vw + x) = 0 \<or> front ! (y * unat vw + x) = 1"
    by (rule binary_cell [OF b l assms(3,4)])
  have "f ! slot (unat vw) y x =
          ?t ! token_index (front ! (y * unat vw + x)) (front ! (y * unat vw + x))"
    unfolding f using d by (intro fill_slot assms(3,4)) simp
  moreover have "?t = color_tokens_4bit \<or> ?t = bw_tokens_4bit" by simp
  ultimately have "token_code (f ! slot (unat vw) y x) = ''40'' \<or>
          token_code (f ! slot (unat vw) y x) = ''47''"
    using unchanged_cell_code [OF c] by simp
  then show ?thesis using f b by blast
qed

theorem first_frame_shows_no_change_witness:
  "parse_vals (value_args [''gol'', ''2'', ''2'', ''0'']) = Inr (2, 2, 0) \<and>
   frames_of (snd (main interrupting_env [''gol'', ''2'', ''2'', ''0''])) =
     [fill_draw_buffer_4bit_color color_tokens_4bit
        (init_draw_buffer (map (fresh_tokens interrupting_env) [0..<18]) 2 2)
        (randomize (rand_value interrupting_env) 1 (map (fresh_cells interrupting_env) [0..<8]))
        (randomize (rand_value interrupting_env) 1 (map (fresh_cells interrupting_env) [0..<8]))
        2 2] \<and>
   (token_code (fill_draw_buffer_4bit_color color_tokens_4bit
        (init_draw_buffer (map (fresh_tokens interrupting_env) [0..<18]) 2 2)
        (randomize (rand_value interrupting_env) 1 (map (fresh_cells interrupting_env) [0..<8]))
        (randomize (rand_value interrupting_env) 1 (map (fresh_cells interrupting_env) [0..<8]))
        2 2 ! slot 2 1 1) = ''40'' \<or>
    token_code (fill_draw_buffer_4bit_color color_tokens_4bit
        (init_draw_buffer (map (fresh_tokens interrupting_env) [0..<18]) 2 2)
        (randomize (rand_value interrupting_env) 1 (map (fresh_cells interrupting_env) [0..<8]))
        (randomize (rand_value interrupting_env) 1 (map (fresh_cells interrupting_env) [0..<8]))
        2 2 ! slot 2 1 1) = ''47'')"
  using first_frame_shows_no_change [OF small_run_args small_run_frames, of 1 1]
    small_run_args small_run_frames
  by simp

text \<open>
  C9. The generation loop is bounded. \<open>main_loop\<close> is a total function (its
  termination is proved with the measure \<open>50000 - gen\<close>), so \<^verbatim>\<open>main\<close> returns for
  every environment and argument vector. Whatever the interrupt flag does and whatever
  the grids hold, at most 50000 rounds of the loop are entered, and a run that passes
  validation and allocation returns 0.
\<close>

theorem driver_loop_bounded:
  "rounds (snd (main e argv)) \<le> 50000 \<and>
   (signal_ok e \<and> \<not> wants_usage argv \<and>
    \<not> rejected 0 (value_args argv ! 1) \<and> \<not> rejected 1 (value_args argv ! 2) \<and>
    \<not> rejected 2 (value_args argv ! 3) \<and> malloc_ok e
    \<longrightarrow> fst (main e argv) = 0)"
proof -
  have "rounds (snd (main e argv)) \<le> 50000"
  proof (cases "parse_vals (value_args argv)")
    case (Inl ev)
    then have "is_stderr ev" by (auto simp add: parse_vals_eq split: if_splits)
    then show ?thesis using Inl by (simp add: main_cases rounds_stderr) (simp add: rounds_def)
  next
    case (Inr v)
    then show ?thesis
      by (cases v) (simp add: main_cases run_rounds, simp add: rounds_def)
  qed
  then show ?thesis
    by (simp add: main_cases parse_vals_eq run_exit)
qed

theorem driver_loop_bounded_witness:
  "signal_ok interrupting_env \<and> malloc_ok interrupting_env \<and>
   \<not> wants_usage [''gol'', ''2'', ''2'', ''0''] \<and>
   rounds (snd (main interrupting_env [''gol'', ''2'', ''2'', ''0''])) \<le> 50000 \<and>
   fst (main interrupting_env [''gol'', ''2'', ''2'', ''0'']) = 0"
  using driver_loop_bounded [of interrupting_env "[''gol'', ''2'', ''2'', ''0'']"]
    parse_vals_Inr [OF small_run_args] small_run_flags interrupting_env_fields
  by simp

text \<open>
  C10, as the code has it. Behind the usage gate (at least three arguments, the first
  not beginning with \<^verbatim>\<open>-h\<close> or \<^verbatim>\<open>--help\<close> in either case), an argument vector in which
  one of the three values fails decimal parsing or lies outside its range, 1 to 2000
  for height and width and 0 to 4800 for the frame rate, makes \<^verbatim>\<open>main\<close> return 1 with
  a single message on standard error and nothing else: no buffer is requested and no
  frame is written. When the signal handler is installed and no value is rejected, the
  program goes on with the three values, which then lie in those ranges.
\<close>

theorem validation_rejects:
  assumes "\<not> wants_usage argv"
  shows "(rejected 0 (value_args argv ! 1) \<or> rejected 1 (value_args argv ! 2) \<or>
          rejected 2 (value_args argv ! 3)
          \<longrightarrow> fst (main e argv) = 1 \<and> (\<exists>ev. snd (main e argv) = [ev] \<and> is_stderr ev)) \<and>
         (signal_ok e \<and> \<not> rejected 0 (value_args argv ! 1) \<and>
          \<not> rejected 1 (value_args argv ! 2) \<and> \<not> rejected 2 (value_args argv ! 3)
          \<longrightarrow> main e argv =
                run (if bw_flag argv then bw_tokens_4bit else color_tokens_4bit) e
                  (parsed_value (value_args argv ! 1)) (parsed_value (value_args argv ! 2))
                  (parsed_value (value_args argv ! 3)) \<and>
              1 \<le> parsed_value (value_args argv ! 1) \<and>
              parsed_value (value_args argv ! 1) \<le> 2000 \<and>
              1 \<le> parsed_value (value_args argv ! 2) \<and>
              parsed_value (value_args argv ! 2) \<le> 2000 \<and>
              parsed_value (value_args argv ! 3) \<le> 4800)"
  using assms accepted_ranges
  by (auto simp add: main_cases parse_vals_eq)

theorem validation_rejects_witness:
  "\<not> wants_usage [''gol'', ''2'', ''2001'', ''0''] \<and>
   rejected 1 (value_args [''gol'', ''2'', ''2001'', ''0''] ! 2) \<and>
   fst (main calm_env [''gol'', ''2'', ''2001'', ''0'']) = 1 \<and>
   (\<exists>ev. snd (main calm_env [''gol'', ''2'', ''2001'', ''0'']) = [ev] \<and> is_stderr ev)"
  using validation_rejects [OF wide_run_flags(1), of calm_env] wide_run_rejected
    wide_run_flags(1)
  by (simp add: wide_run_flags(2))

text \<open>
  The claim as stated has no usage gate. The first value of the command line below
  fails decimal parsing (the sign is followed by no digit), and the program prints the
  usage text and returns 0.
\<close>

theorem validation_usage_gate_counterexample:
  "fails_decimal_parsing (value_args [''gol'', ''-h2'', ''30'', ''5''] ! 1) \<and>
   main calm_env [''gol'', ''-h2'', ''30'', ''5''] = (0, [Stdout_usage])"
  by (simp add: value_args_def bw_flag_def fails_decimal_parsing_def number_split_def
      isspace_def isdigit_def main_def wants_usage_def strncasecmp_eq_def tolower_def
      calm_env_def)

end
